theory Spec2Isabelle
  imports
    Main
    "HOL-Library.Word"
    "HOL-Library.Char_ord"
    "HOL-Library.List_Lexorder"
    "HOL-Library.Sublist"
    "HOL-Library.Multiset"
begin

chapter \<open>The KaTeX font bundler (bundle-katex-fonts.py)\<close>

text \<open>
  A shallow embedding of \<^verbatim>\<open>src/main/resources/chat-window/bundle-katex-fonts.py\<close>.
  A Python \<^verbatim>\<open>str\<close> is modelled by the \<open>string\<close> of its UTF-8 bytes: every
  character the program looks at (\<^verbatim>\<open>url(\<close>, the quotes, the parentheses, \<^verbatim>\<open>/\<close>,
  \<^verbatim>\<open>.\<close>, the letters of \<^verbatim>\<open>fonts/\<close> and of the four extensions) is ASCII, and no
  byte of a multi-byte UTF-8 sequence is an ASCII byte, so searching, replacing and
  comparing on the bytes is searching, replacing and comparing on the code points.
  Binary data (\<^verbatim>\<open>bytes\<close>) is a list of 8-bit words.
\<close>

type_synonym byte = "8 word"

section \<open>Definitions\<close>

subsection \<open>MIME classification (\<^verbatim>\<open>get_mime_type\<close>, lines 63-71)\<close>

text \<open>
  \<^verbatim>\<open>str.rfind(c)\<close>: the highest index holding \<open>c\<close>, or \<open>-1\<close>.
\<close>

definition rfind :: "char \<Rightarrow> string \<Rightarrow> int" where
  "rfind c s =
     (case filter (\<lambda>i. s ! i = c) (rev [0..<length s]) of
        [] \<Rightarrow> - 1
      | i # _ \<Rightarrow> int i)"

text \<open>
  The loop of \<^verbatim>\<open>genericpath._splitext\<close> that skips the leading dots of the last
  path component: from \<open>filenameIndex\<close> up to \<open>dotIndex\<close>, the first character that is
  not a dot makes the function split at \<open>dotIndex\<close> (\<open>True\<close>); running into \<open>dotIndex\<close>
  leaves the path whole (\<open>False\<close>).
\<close>

function splits_at_dot :: "string \<Rightarrow> nat \<Rightarrow> nat \<Rightarrow> bool" where
  "splits_at_dot p filenameIndex dotIndex =
     (if filenameIndex < dotIndex
      then (if p ! filenameIndex \<noteq> CHR ''.'' then True
            else splits_at_dot p (filenameIndex + 1) dotIndex)
      else False)"
  by pat_completeness auto
termination
  by (relation "measure (\<lambda>(p, i, d). d - i)") auto

declare splits_at_dot.simps [simp del]

text \<open>
  \<^verbatim>\<open>os.path.splitext\<close> of \<^verbatim>\<open>posixpath\<close> (separator \<^verbatim>\<open>/\<close>, no alternative
  separator, extension separator \<^verbatim>\<open>.\<close>).
\<close>

definition splitext :: "string \<Rightarrow> string \<times> string" where
  "splitext p =
     (let sepIndex = rfind (CHR ''/'') p;
          dotIndex = rfind (CHR ''.'') p
      in if dotIndex > sepIndex \<and> splits_at_dot p (nat (sepIndex + 1)) (nat dotIndex)
         then (take (nat dotIndex) p, drop (nat dotIndex) p)
         else (p, []))"

text \<open>
  \<^verbatim>\<open>str.lower\<close>, on the ASCII letters. No character outside ASCII lower-cases to one
  of the characters of the four extensions of the table, so for the lookup below
  the ASCII letters are the only ones that matter.
\<close>

definition lower_char :: "char \<Rightarrow> char" where
  "lower_char c =
     (if CHR ''A'' \<le> c \<and> c \<le> CHR ''Z'' then char_of (of_char c + (32 :: nat)) else c)"

definition lower :: "string \<Rightarrow> string" where
  "lower s = map lower_char s"

definition mime_table :: "(string \<times> string) list" where
  "mime_table =
     [(''.woff2'', ''font/woff2''),
      (''.woff'', ''font/woff''),
      (''.ttf'', ''font/ttf''),
      (''.eot'', ''application/vnd.ms-fontembedded-opentype'')]"

text \<open>\<^verbatim>\<open>dict.get(key, default)\<close>.\<close>

definition dict_get :: "('k \<times> 'v) list \<Rightarrow> 'k \<Rightarrow> 'v \<Rightarrow> 'v" where
  "dict_get d k dflt = (case map_of d k of Some v \<Rightarrow> v | None \<Rightarrow> dflt)"

definition get_mime_type :: "string \<Rightarrow> string" where
  "get_mime_type path =
     (let ext = lower (snd (splitext path))
      in dict_get mime_table ext ''application/octet-stream'')"

text \<open>
  For the statements: a text \<open>x\<close> is \<open>caseless\<close> a text \<open>y\<close> of lower-case letters
  and digits when it is \<open>y\<close> but for the case of its ASCII letters.
\<close>

definition uppercase_letters :: string where
  "uppercase_letters = ''ABCDEFGHIJKLMNOPQRSTUVWXYZ''"

definition lowercase_letters :: string where
  "lowercase_letters = ''abcdefghijklmnopqrstuvwxyz''"

definition caseless :: "string \<Rightarrow> string \<Rightarrow> bool" where
  "caseless x y =
     list_all2 (\<lambda>a b. a = b \<or> (a, b) \<in> set (zip uppercase_letters lowercase_letters)) x y"

subsection \<open>Text substitution (\<^verbatim>\<open>bundle\<close>, lines 109-115)\<close>

text \<open>
  \<^verbatim>\<open>str.replace(old, new)\<close>: the occurrences of \<open>old\<close> are found from left to
  right, the search resuming behind each occurrence that was replaced, so the
  replaced occurrences do not overlap. With an empty \<open>old\<close>, Python puts \<open>new\<close> in
  front of every character and at the end.
\<close>

function replace :: "string \<Rightarrow> string \<Rightarrow> string \<Rightarrow> string" where
  "replace s old new =
     (if old = [] then new @ concat (map (\<lambda>c. c # new) s)
      else if s = [] then []
      else if prefix old s then new @ replace (drop (length old) s) old new
      else hd s # replace (tl s) old new)"
  by pat_completeness auto
termination
  by (relation "measure (\<lambda>(s, old, new). length s)") auto

declare replace.simps [simp del]

text \<open>The two quote characters, \<^verbatim>\<open>"\<close> and \<^verbatim>\<open>'\<close>.\<close>

definition dquote :: char where
  "dquote = CHR 0x22"

definition squote :: char where
  "squote = CHR 0x27"

text \<open>
  The three textual forms of a reference that line 113, line 114 and line 115
  build, \<^verbatim>\<open>url(x)\<close>, \<^verbatim>\<open>url("x")\<close> and \<^verbatim>\<open>url('x')\<close>.
\<close>

definition url_plain :: "string \<Rightarrow> string" where
  "url_plain x = ''url('' @ x @ '')''"

definition url_dquoted :: "string \<Rightarrow> string" where
  "url_dquoted x = ''url('' @ [dquote] @ x @ [dquote] @ '')''"

definition url_squoted :: "string \<Rightarrow> string" where
  "url_squoted x = ''url('' @ [squote] @ x @ [squote] @ '')''"

text \<open>The body of the loop of line 111: the three passes for one entry.\<close>

definition replace_font :: "string \<Rightarrow> string \<times> string \<Rightarrow> string" where
  "replace_font bundled_css entry =
     (case entry of (font_path, data_uri) \<Rightarrow>
        let css1 = replace bundled_css (url_plain font_path) (url_plain data_uri);
            css2 = replace css1 (url_dquoted font_path) (url_dquoted data_uri);
            css3 = replace css2 (url_squoted font_path) (url_squoted data_uri)
        in css3)"

text \<open>
  The loop of lines 110-115. The dictionary \<^verbatim>\<open>replacements\<close> is the list of its
  items in insertion order, which is the order \<^verbatim>\<open>dict.items()\<close> iterates in.
\<close>

definition apply_replacements :: "string \<Rightarrow> (string \<times> string) list \<Rightarrow> string" where
  "apply_replacements css replacements = foldl replace_font css replacements"

subsection \<open>Reference discovery (\<^verbatim>\<open>bundle\<close>, lines 87-89)\<close>

text \<open>
  The pattern of line 87 is a sequence of atoms of three kinds: a literal text, a
  greedy optional character of a class (\<^verbatim>\<open>[...]?\<close>) and a greedy repetition, at
  least once, of the characters outside a class (\<^verbatim>\<open>[^...]+\<close>). A negated class
  also matches a newline.
\<close>

datatype atom = Lit string | Opt "char list" | PlusNot "char list"

text \<open>
  Python's \<^verbatim>\<open>re\<close> matches by backtracking. The model lists, for an atom and a text,
  the texts that can remain behind the atom, in the order the matcher tries them:
  a greedy optional first takes its character and then nothing; a greedy repetition
  first takes the longest run and then gives the characters back one by one.
\<close>

fun plus_rems :: "char list \<Rightarrow> string \<Rightarrow> string list" where
  "plus_rems cs [] = []"
| "plus_rems cs (c # t) = (if c \<in> set cs then [] else plus_rems cs t @ [t])"

fun atom_rems :: "atom \<Rightarrow> string \<Rightarrow> string list" where
  "atom_rems (Lit l) s = (if prefix l s then [drop (length l) s] else [])"
| "atom_rems (Opt cs) s =
     (case s of
        [] \<Rightarrow> [s]
      | c # t \<Rightarrow> if c \<in> set cs then [t, s] else [s])"
| "atom_rems (PlusNot cs) s = plus_rems cs s"

fun seq_rems :: "atom list \<Rightarrow> string \<Rightarrow> string list" where
  "seq_rems [] s = [s]"
| "seq_rems (a # as) s = concat (map (seq_rems as) (atom_rems a s))"

text \<open>
  A pattern with one capturing group: the atoms in front of the group, the atoms of
  the group and the atoms behind it. \<open>match_all\<close> lists every way the pattern
  matches at the start of the text, as the captured text and the text that remains,
  in the order of the backtracking search; \<^verbatim>\<open>re\<close> takes the first.
\<close>

type_synonym pattern = "atom list \<times> atom list \<times> atom list"

definition match_all :: "pattern \<Rightarrow> string \<Rightarrow> (string \<times> string) list" where
  "match_all pat s =
     (case pat of (pre, grp, post) \<Rightarrow>
        concat (map (\<lambda>t1.
          concat (map (\<lambda>t2.
            map (\<lambda>t3. (take (length t1 - length t2) t1, t3)) (seq_rems post t2))
            (seq_rems grp t1)))
          (seq_rems pre s)))"

definition re_match :: "pattern \<Rightarrow> string \<Rightarrow> (string \<times> string) option" where
  "re_match pat s = (case match_all pat s of [] \<Rightarrow> None | m # _ \<Rightarrow> Some m)"

text \<open>Line 87: \<^verbatim>\<open>url\(["\']?(fonts/[^)"\']+)["\']?\)\<close>.\<close>

definition url_pattern :: pattern where
  "url_pattern =
     ([Lit ''url('', Opt [dquote, squote]],
      [Lit ''fonts/'', PlusNot [CHR '')'', dquote, squote]],
      [Opt [dquote, squote], Lit '')''])"

lemma plus_rems_shorter: "t \<in> set (plus_rems cs s) \<Longrightarrow> length t < length s"
  by (induction s) (auto split: if_splits)

lemma atom_rems_shorter: "t \<in> set (atom_rems a s) \<Longrightarrow> length t \<le> length s"
  by (cases a) (auto split: if_splits list.splits dest: plus_rems_shorter)

lemma seq_rems_shorter: "t \<in> set (seq_rems as s) \<Longrightarrow> length t \<le> length s"
proof (induction as arbitrary: s)
  case Nil
  then show ?case by simp
next
  case (Cons a as)
  then obtain u where "u \<in> set (atom_rems a s)" "t \<in> set (seq_rems as u)" by auto
  then show ?case using Cons.IH [of u] atom_rems_shorter [of u a s] by simp
qed

lemma url_pattern_consumes:
  assumes "re_match url_pattern s = Some (g, rest)"
  shows "length rest < length s"
proof -
  from assms have "(g, rest) \<in> set (match_all url_pattern s)"
    by (auto simp: re_match_def split: list.splits)
  then obtain t1 t2 where t1: "t1 \<in> set (seq_rems [Lit ''url('', Opt [dquote, squote]] s)"
    and t2: "t2 \<in> set (seq_rems [Lit ''fonts/'', PlusNot [CHR '')'', dquote, squote]] t1)"
    and t3: "rest \<in> set (seq_rems [Opt [dquote, squote], Lit '')''] t2)"
    by (auto simp: match_all_def url_pattern_def)
  from t2 have "length t2 < length t1"
    by (auto split: if_splits dest!: plus_rems_shorter)
  with seq_rems_shorter [OF t1] seq_rems_shorter [OF t3] show ?thesis by simp
qed

text \<open>
  \<^verbatim>\<open>url_pattern.findall(css)\<close>: the text is scanned from left to right; where the
  pattern matches, the captured text is collected and the scan resumes behind the
  match; elsewhere the scan moves on by one character.
\<close>

function findall :: "string \<Rightarrow> string list" where
  "findall css =
     (case re_match url_pattern css of
        Some (g, rest) \<Rightarrow> g # findall rest
      | None \<Rightarrow> (case css of [] \<Rightarrow> [] | c # t \<Rightarrow> findall t))"
  by pat_completeness auto
termination
  by (relation "measure length") (auto dest: url_pattern_consumes)

declare findall.simps [simp del]

text \<open>
  Line 89, \<^verbatim>\<open>sorted(set(matches))\<close>: strings are ordered lexicographically by their
  characters, a proper prefix before its extensions.
\<close>

definition unique_fonts :: "string \<Rightarrow> string list" where
  "unique_fonts css = sorted_list_of_set (set (findall css))"

subsection \<open>Encoding (\<^verbatim>\<open>bundle\<close>, lines 100-102)\<close>

text \<open>
  \<^verbatim>\<open>base64.b64encode\<close>: the standard alphabet of RFC 4648, three bytes to four
  characters, the last group padded with \<^verbatim>\<open>=\<close>.
\<close>

definition b64_alphabet :: string where
  "b64_alphabet = ''ABCDEFGHIJKLMNOPQRSTUVWXYZabcdefghijklmnopqrstuvwxyz0123456789+/''"

definition b64_char :: "nat \<Rightarrow> char" where
  "b64_char n = b64_alphabet ! n"

fun b64encode :: "byte list \<Rightarrow> string" where
  "b64encode [] = []"
| "b64encode [a] =
     [b64_char (unat a div 4), b64_char (unat a mod 4 * 16), CHR ''='', CHR ''='']"
| "b64encode [a, b] =
     [b64_char (unat a div 4), b64_char (unat a mod 4 * 16 + unat b div 16),
      b64_char (unat b mod 16 * 4), CHR ''='']"
| "b64encode (a # b # c # rest) =
     [b64_char (unat a div 4), b64_char (unat a mod 4 * 16 + unat b div 16),
      b64_char (unat b mod 16 * 4 + unat c div 64), b64_char (unat c mod 64)]
     @ b64encode rest"

text \<open>
  The decoder the round trip is stated with: four characters of the standard
  alphabet to three bytes, \<^verbatim>\<open>=\<close> only as the padding of the last group, \<open>None\<close> for
  any other text.
\<close>

fun index_of :: "char \<Rightarrow> string \<Rightarrow> nat option" where
  "index_of c [] = None"
| "index_of c (x # xs) = (if c = x then Some 0 else map_option Suc (index_of c xs))"

definition b64_value :: "char \<Rightarrow> nat option" where
  "b64_value c = index_of c b64_alphabet"

fun b64decode :: "string \<Rightarrow> byte list option" where
  "b64decode [] = Some []"
| "b64decode [c1] = None"
| "b64decode [c1, c2] = None"
| "b64decode [c1, c2, c3] = None"
| "b64decode (c1 # c2 # c3 # c4 # rest) =
     (case (b64_value c1, b64_value c2) of
        (Some v1, Some v2) \<Rightarrow>
          if c3 = CHR ''='' \<and> c4 = CHR ''='' \<and> rest = []
          then Some [of_nat (v1 * 4 + v2 div 16)]
          else (case b64_value c3 of
             Some v3 \<Rightarrow>
               if c4 = CHR ''='' \<and> rest = []
               then Some [of_nat (v1 * 4 + v2 div 16), of_nat (v2 mod 16 * 16 + v3 div 4)]
               else (case (b64_value c4, b64decode rest) of
                  (Some v4, Some bs) \<Rightarrow>
                    Some (of_nat (v1 * 4 + v2 div 16) # of_nat (v2 mod 16 * 16 + v3 div 4)
                          # of_nat (v3 mod 4 * 64 + v4) # bs)
                | _ \<Rightarrow> None)
           | None \<Rightarrow> None)
      | _ \<Rightarrow> None)"

text \<open>Lines 100-102: the data URI of a font, from its path and its bytes.\<close>

definition encode_font :: "string \<Rightarrow> byte list \<Rightarrow> string" where
  "encode_font font_path font_data =
     (let mime = get_mime_type font_path;
          b64 = b64encode font_data
      in ''data:'' @ mime @ '';base64,'' @ b64)"

text \<open>The payload of a data URI: what follows its first comma.\<close>

definition payload :: "string \<Rightarrow> string" where
  "payload uri = drop 1 (dropWhile (\<lambda>c. c \<noteq> CHR '','') uri)"

text \<open>The MIME segment of a data URI: between \<^verbatim>\<open>data:\<close> and the first semicolon.\<close>

definition mime_segment :: "string \<Rightarrow> string" where
  "mime_segment uri = takeWhile (\<lambda>c. c \<noteq> CHR '';'') (drop 5 uri)"

definition is_ascii :: "string \<Rightarrow> bool" where
  "is_ascii s = list_all (\<lambda>c. (of_char c :: nat) < 128) s"

subsection \<open>The world: files, the operating system, the remote source, the console\<close>

text \<open>
  What the program reads and changes outside its own variables.

  The files are modelled by what the program can observe of a path: nothing
  (\<^verbatim>\<open>os.path.exists\<close> is false), a file whose bytes \<^verbatim>\<open>open(p, "rb").read()\<close>
  returns, or something else that exists and that cannot be read (a directory, a file
  without read permission), with the exception reading it raises and the size
  \<^verbatim>\<open>os.path.getsize\<close> reports. Several paths may show the same file.

  The two calls that change the files, \<^verbatim>\<open>os.makedirs(d, exist_ok=True)\<close> and
  \<^verbatim>\<open>open(p, "wb")\<close> with \<^verbatim>\<open>write\<close>, are the operating system's: the world carries
  them as functions from the files and the arguments to the exception the call raises
  or the files it leaves. Nothing is fixed about them here; a theorem that needs a
  property of the operating system states it as a hypothesis. The remote source
  answers a URL with the bytes of the response body or with the exception
  \<^verbatim>\<open>urlopen\<close> raises for it. Every exception the program can meet is a value of
  \<open>error\<close>.
\<close>

datatype error =
    FileNotFoundError
  | FileExistsError
  | IsADirectoryError
  | NotADirectoryError
  | PermissionError
  | OSError
  | UnicodeDecodeError
  | URLError

datatype node = File "byte list" | Special error nat

type_synonym files = "string \<Rightarrow> node option"

text \<open>One constructor for each \<^verbatim>\<open>print\<close> of the program, with the values it formats.\<close>

datatype message =
    InputNotFound string
  | RunFromHint
  | Reading string
  | Found nat
  | Cached string
  | Download string
  | Failed string error
  | Done
  | InputSize string nat
  | FontsEncoded nat nat
  | OutputSize string nat
  | UseInstead string string
  | DeleteHint string

record world =
  fs :: files
  os_makedirs :: "files \<Rightarrow> string \<Rightarrow> error + files"
  os_write :: "files \<Rightarrow> string \<Rightarrow> byte list \<Rightarrow> error + files"
  remote :: "string \<Rightarrow> error + byte list"
  requests :: "string list"
  console :: "message list"

definition print :: "world \<Rightarrow> message \<Rightarrow> world" where
  "print w m = w\<lparr>console := console w @ [m]\<rparr>"

definition KATEX_VERSION :: string where
  "KATEX_VERSION = ''0.16.9''"

definition CDN_BASE :: string where
  "CDN_BASE = ''https://cdnjs.cloudflare.com/ajax/libs/KaTeX/'' @ KATEX_VERSION @ ''/''"

definition INPUT_FILE :: string where
  "INPUT_FILE = ''katex.min.css''"

definition OUTPUT_FILE :: string where
  "OUTPUT_FILE = ''katex-bundled.css''"

text \<open>\<^verbatim>\<open>os.path.exists\<close>.\<close>

definition path_exists :: "world \<Rightarrow> string \<Rightarrow> bool" where
  "path_exists w p = (fs w p \<noteq> None)"

text \<open>\<^verbatim>\<open>open(p, "rb").read()\<close>.\<close>

definition read_bytes :: "world \<Rightarrow> string \<Rightarrow> error + byte list" where
  "read_bytes w p =
     (case fs w p of
        None \<Rightarrow> Inl FileNotFoundError
      | Some (Special e n) \<Rightarrow> Inl e
      | Some (File data) \<Rightarrow> Inr data)"

text \<open>\<^verbatim>\<open>posixpath.dirname\<close>.\<close>

definition rstrip_slashes :: "string \<Rightarrow> string" where
  "rstrip_slashes s = rev (dropWhile (\<lambda>c. c = CHR ''/'') (rev s))"

definition dirname :: "string \<Rightarrow> string" where
  "dirname p =
     (let i = nat (rfind (CHR ''/'') p + 1);
          head = take i p
      in if head \<noteq> [] \<and> head \<noteq> replicate (length head) (CHR ''/'')
         then rstrip_slashes head else head)"

text \<open>\<^verbatim>\<open>os.makedirs(d, exist_ok=True)\<close>: what the operating system makes of it.\<close>

definition makedirs :: "world \<Rightarrow> string \<Rightarrow> error + world" where
  "makedirs w d =
     (case os_makedirs w (fs w) d of
        Inl e \<Rightarrow> Inl e
      | Inr files \<Rightarrow> Inr (w\<lparr>fs := files\<rparr>))"

text \<open>
  \<^verbatim>\<open>open(p, "wb")\<close> followed by \<^verbatim>\<open>write(data)\<close>: what the operating system makes
  of it.
\<close>

definition write_bytes :: "world \<Rightarrow> string \<Rightarrow> byte list \<Rightarrow> error + world" where
  "write_bytes w p data =
     (case os_write w (fs w) p data of
        Inl e \<Rightarrow> Inl e
      | Inr files \<Rightarrow> Inr (w\<lparr>fs := files\<rparr>))"

text \<open>
  \<^verbatim>\<open>urlopen(Request(url, ...)).read()\<close>: the request is recorded, and the remote
  source gives the body or the exception.
\<close>

definition urlopen :: "world \<Rightarrow> string \<Rightarrow> world \<times> (error + byte list)" where
  "urlopen w url = (w\<lparr>requests := requests w @ [url]\<rparr>, remote w url)"

text \<open>\<^verbatim>\<open>os.path.getsize\<close>.\<close>

definition getsize :: "world \<Rightarrow> string \<Rightarrow> error + nat" where
  "getsize w p =
     (case fs w p of
        None \<Rightarrow> Inl FileNotFoundError
      | Some (Special e n) \<Rightarrow> Inr n
      | Some (File data) \<Rightarrow> Inr (length data))"

text \<open>
  The property of the operating system that claims about the cache rest on: a write
  that succeeds leaves, at the path written, a file with the bytes written.
\<close>

definition write_stores :: "world \<Rightarrow> bool" where
  "write_stores w \<longleftrightarrow>
     (\<forall>files p data files'. os_write w files p data = Inr files' \<longrightarrow> files' p = Some (File data))"

subsection \<open>Text files\<close>

text \<open>
  \<^verbatim>\<open>open(p, "r", encoding="utf-8").read()\<close> decodes the bytes, which must be
  well-formed UTF-8, and turns every line ending (\<^verbatim>\<open>\r\n\<close> and a lone \<^verbatim>\<open>\r\<close>) into
  \<^verbatim>\<open>\n\<close>. \<^verbatim>\<open>open(p, "w", encoding="utf-8").write(s)\<close> encodes the text; on POSIX
  it writes \<^verbatim>\<open>\n\<close> as it is.
\<close>

definition continuation :: "nat \<Rightarrow> bool" where
  "continuation b = (0x80 \<le> b \<and> b \<le> 0xBF)"

fun valid_utf8 :: "nat list \<Rightarrow> bool" where
  "valid_utf8 [] = True"
| "valid_utf8 (b0 # bs) =
     (if b0 < 0x80 then valid_utf8 bs
      else if 0xC2 \<le> b0 \<and> b0 \<le> 0xDF then
        (case bs of b1 # r \<Rightarrow> continuation b1 \<and> valid_utf8 r | _ \<Rightarrow> False)
      else if 0xE0 \<le> b0 \<and> b0 \<le> 0xEF then
        (case bs of
           b1 # b2 # r \<Rightarrow>
             continuation b1 \<and> continuation b2
             \<and> (b0 = 0xE0 \<longrightarrow> 0xA0 \<le> b1) \<and> (b0 = 0xED \<longrightarrow> b1 \<le> 0x9F)
             \<and> valid_utf8 r
         | _ \<Rightarrow> False)
      else if 0xF0 \<le> b0 \<and> b0 \<le> 0xF4 then
        (case bs of
           b1 # b2 # b3 # r \<Rightarrow>
             continuation b1 \<and> continuation b2 \<and> continuation b3
             \<and> (b0 = 0xF0 \<longrightarrow> 0x90 \<le> b1) \<and> (b0 = 0xF4 \<longrightarrow> b1 \<le> 0x8F)
             \<and> valid_utf8 r
         | _ \<Rightarrow> False)
      else False)"

fun universal_newlines :: "string \<Rightarrow> string" where
  "universal_newlines [] = []"
| "universal_newlines [c] = (if c = CHR 0x0D then [CHR 0x0A] else [c])"
| "universal_newlines (c # d # t) =
     (if c = CHR 0x0D \<and> d = CHR 0x0A then CHR 0x0A # universal_newlines t
      else if c = CHR 0x0D then CHR 0x0A # universal_newlines (d # t)
      else c # universal_newlines (d # t))"

definition char_of_byte :: "byte \<Rightarrow> char" where
  "char_of_byte b = char_of (unat b)"

definition byte_of_char :: "char \<Rightarrow> byte" where
  "byte_of_char c = of_nat (of_char c)"

definition read_text :: "world \<Rightarrow> string \<Rightarrow> error + string" where
  "read_text w p =
     (case read_bytes w p of
        Inl e \<Rightarrow> Inl e
      | Inr data \<Rightarrow>
          if valid_utf8 (map unat data)
          then Inr (universal_newlines (map char_of_byte data))
          else Inl UnicodeDecodeError)"

definition write_text :: "world \<Rightarrow> string \<Rightarrow> string \<Rightarrow> error + world" where
  "write_text w p s = write_bytes w p (map byte_of_char s)"

subsection \<open>Obtaining a font (\<^verbatim>\<open>download_font\<close>, lines 39-60)\<close>

text \<open>
  The result is the world the call leaves and either the exception it raises or the
  bytes it returns: what was done before an exception stays done.
\<close>

definition download_font :: "world \<Rightarrow> string \<Rightarrow> world \<times> (error + byte list)" where
  "download_font w relative_path =
     (let local_path = relative_path
      in if path_exists w local_path
         then (let w1 = print w (Cached relative_path)
               in (w1, read_bytes w1 local_path))
         else (case makedirs w (dirname local_path) of
            Inl e \<Rightarrow> (w, Inl e)
          | Inr w1 \<Rightarrow>
              let url = CDN_BASE @ relative_path;
                  w2 = print w1 (Download url)
              in (case urlopen w2 url of
                 (w3, Inl e) \<Rightarrow> (w3, Inl e)
               | (w3, Inr data) \<Rightarrow>
                   (case write_bytes w3 local_path data of
                      Inl e \<Rightarrow> (w3, Inl e)
                    | Inr w4 \<Rightarrow> (w4, Inr data)))))"

subsection \<open>The run (\<^verbatim>\<open>bundle\<close>, lines 74-128)\<close>

text \<open>
  \<^verbatim>\<open>replacements[font_path] = data_uri\<close>: a new key goes behind the others, a key
  that is there keeps its place.
\<close>

fun dict_set :: "('k \<times> 'v) list \<Rightarrow> 'k \<Rightarrow> 'v \<Rightarrow> ('k \<times> 'v) list" where
  "dict_set [] k v = [(k, v)]"
| "dict_set ((k', v') # d) k v = (if k' = k then (k, v) # d else (k', v') # dict_set d k v)"

text \<open>
  The loop of lines 96-107, with the variables it updates. The only statement of the
  \<^verbatim>\<open>try\<close> block that can raise is the call of \<^verbatim>\<open>download_font\<close>; the handler
  prints and goes on with the next font.
\<close>

fun encode_fonts ::
  "world \<Rightarrow> (string \<times> string) list \<Rightarrow> nat \<Rightarrow> string list
    \<Rightarrow> world \<times> (string \<times> string) list \<times> nat" where
  "encode_fonts w replacements total_size [] = (w, replacements, total_size)"
| "encode_fonts w replacements total_size (font_path # rest) =
     (case download_font w font_path of
        (w1, Inl e) \<Rightarrow>
          encode_fonts (print w1 (Failed font_path e)) replacements total_size rest
      | (w1, Inr font_data) \<Rightarrow>
          encode_fonts w1
            (dict_set replacements font_path (encode_font font_path font_data))
            (total_size + length font_data) rest)"

text \<open>
  The function \<^verbatim>\<open>bundle\<close>, named \<open>bundle_css\<close> here. The whole run: the world it leaves, and \<open>Inr ()\<close> when it returns or \<open>Inl e\<close> when
  an exception ends it.
\<close>

definition bundle_css :: "world \<Rightarrow> world \<times> (error + unit)" where
  "bundle_css w =
     (if \<not> path_exists w INPUT_FILE
      then (print (print w (InputNotFound INPUT_FILE)) RunFromHint, Inr ())
      else
        let w1 = print w (Reading INPUT_FILE)
        in (case read_text w1 INPUT_FILE of
           Inl e \<Rightarrow> (w1, Inl e)
         | Inr css \<Rightarrow>
             let w2 = print w1 (Found (length (unique_fonts css)))
             in (case encode_fonts w2 [] 0 (unique_fonts css) of
                (w3, replacements, total_size) \<Rightarrow>
                  let bundled_css = apply_replacements css replacements
                  in (case write_text w3 OUTPUT_FILE bundled_css of
                     Inl e \<Rightarrow> (w3, Inl e)
                   | Inr w4 \<Rightarrow>
                       (case getsize w4 INPUT_FILE of
                          Inl e \<Rightarrow> (w4, Inl e)
                        | Inr input_size \<Rightarrow>
                            (case getsize w4 OUTPUT_FILE of
                               Inl e \<Rightarrow> (w4, Inl e)
                             | Inr output_size \<Rightarrow>
                                 (foldl print w4
                                    [Done,
                                     InputSize INPUT_FILE input_size,
                                     FontsEncoded (length replacements) total_size,
                                     OutputSize OUTPUT_FILE output_size,
                                     UseInstead OUTPUT_FILE INPUT_FILE,
                                     DeleteHint INPUT_FILE],
                                  Inr ())))))))"

subsection \<open>Worlds and texts for the examples\<close>

text \<open>
  An operating system for the examples: it makes the directory \<^verbatim>\<open>fonts\<close>, writes the
  output file and the font \<^verbatim>\<open>fonts/A.woff2\<close>, and refuses every other call.
\<close>

definition example_makedirs :: "files \<Rightarrow> string \<Rightarrow> error + files" where
  "example_makedirs files d =
     (if d = ''fonts'' then Inr (files(d \<mapsto> Special IsADirectoryError 0))
      else Inl PermissionError)"

definition example_write :: "files \<Rightarrow> string \<Rightarrow> byte list \<Rightarrow> error + files" where
  "example_write files p data =
     (if p = OUTPUT_FILE \<or> p = ''fonts/A.woff2'' then Inr (files(p \<mapsto> File data))
      else Inl PermissionError)"


definition empty_world :: world where
  "empty_world =
     \<lparr>fs = Map.empty, os_makedirs = example_makedirs, os_write = example_write,
      remote = (\<lambda>url. Inl URLError), requests = [], console = []\<rparr>"

definition cached_world :: world where
  "cached_world =
     \<lparr>fs = [''fonts/A.woff2'' \<mapsto> File [0x41, 0x42, 0x43]],
      os_makedirs = example_makedirs, os_write = example_write,
      remote = (\<lambda>url. Inl URLError), requests = [], console = []\<rparr>"

definition remote_world :: world where
  "remote_world =
     \<lparr>fs = Map.empty, os_makedirs = example_makedirs, os_write = example_write,
      remote = (\<lambda>url. if url = CDN_BASE @ ''fonts/A.woff2'' then Inr [1, 2, 3]
                      else Inl URLError),
      requests = [], console = []\<rparr>"

subsection \<open>Notions for the statements about substitution\<close>

text \<open>
  A text is \<open>bracketed\<close> when it is \<^verbatim>\<open>url(\<close>, a body without parentheses, and \<^verbatim>\<open>)\<close>.
  The three forms of a path or of a data URI without parentheses are bracketed.
\<close>

definition bracketed :: "string \<Rightarrow> bool" where
  "bracketed t \<longleftrightarrow>
     (\<exists>b. t = ''url('' @ b @ '')'' \<and> CHR ''('' \<notin> set b \<and> CHR '')'' \<notin> set b)"

definition has_token :: "string \<Rightarrow> bool" where
  "has_token s \<longleftrightarrow> (\<exists>a X r. s = a @ X @ r \<and> bracketed X)"

text \<open>No parenthesis and no quote.\<close>

definition plain_text :: "string \<Rightarrow> bool" where
  "plain_text x \<longleftrightarrow>
     CHR ''('' \<notin> set x \<and> CHR '')'' \<notin> set x \<and> dquote \<notin> set x \<and> squote \<notin> set x"

text \<open>
  What the pattern of line 87 can capture: \<^verbatim>\<open>fonts/\<close>, then at least one character,
  none of them \<^verbatim>\<open>)\<close>, \<^verbatim>\<open>"\<close> or \<^verbatim>\<open>'\<close>.
\<close>

definition font_reference :: "string \<Rightarrow> bool" where
  "font_reference p \<longleftrightarrow>
     prefix ''fonts/'' p \<and> 6 < length p
     \<and> CHR '')'' \<notin> set p \<and> dquote \<notin> set p \<and> squote \<notin> set p"

text \<open>
  The replacement mapping the run builds from the fonts it obtained: each path with
  the data URI of its bytes, in the order of the list.
\<close>

definition encoded :: "(string \<times> byte list) list \<Rightarrow> (string \<times> string) list" where
  "encoded fonts = map (\<lambda>(font_path, font_data). (font_path, encode_font font_path font_data)) fonts"

text \<open>
  The three (old, new) pairs of an entry, in the order of lines 113-115, and those
  of a whole mapping.
\<close>

definition entry_forms :: "string \<times> string \<Rightarrow> (string \<times> string) list" where
  "entry_forms entry =
     (case entry of (font_path, data_uri) \<Rightarrow>
        [(url_plain font_path, url_plain data_uri),
         (url_dquoted font_path, url_dquoted data_uri),
         (url_squoted font_path, url_squoted data_uri)])"

definition forms :: "(string \<times> string) list \<Rightarrow> (string \<times> string) list" where
  "forms replacements = concat (map entry_forms replacements)"

text \<open>
  The substitution as the specification words it, in one pass over the text: where
  one of the old texts starts, its new text is written and the scan goes on behind the
  old text; every other character is copied as it is.
\<close>

function spec_substitute :: "(string \<times> string) list \<Rightarrow> string \<Rightarrow> string" where
  "spec_substitute pairs s =
     (if s = [] then []
      else (case find (\<lambda>(old, new). old \<noteq> [] \<and> prefix old s) pairs of
         Some (old, new) \<Rightarrow> new @ spec_substitute pairs (drop (length old) s)
       | None \<Rightarrow> hd s # spec_substitute pairs (tl s)))"
  by pat_completeness auto
termination
  by (relation "measure (\<lambda>(pairs, s). length s)") (auto simp: find_Some_iff)

declare spec_substitute.simps [simp del]

text \<open>What the three passes of one entry make of a single token.\<close>

definition replace_token :: "string \<Rightarrow> string \<times> string \<Rightarrow> string" where
  "replace_token X entry =
     (case entry of (font_path, data_uri) \<Rightarrow>
        let X1 = (if X = url_plain font_path then url_plain data_uri else X);
            X2 = (if X1 = url_dquoted font_path then url_dquoted data_uri else X1);
            X3 = (if X2 = url_squoted font_path then url_squoted data_uri else X2)
        in X3)"

text \<open>The positions of a text at which a pattern occurs.\<close>

definition occurrences :: "string \<Rightarrow> string \<Rightarrow> nat list" where
  "occurrences pat s = filter (\<lambda>i. prefix pat (drop i s)) [0..<Suc (length s)]"

text \<open>
  What the one-pass substitution makes of a text that is a single token: the new text
  of the first pair whose old text it is, or the token itself.
\<close>

definition token_image :: "(string \<times> string) list \<Rightarrow> string \<Rightarrow> string" where
  "token_image pairs X =
     (case find (\<lambda>(old, new). old = X) pairs of Some (old, new) \<Rightarrow> new | None \<Rightarrow> X)"

text \<open>
  A mapping is \<open>clean\<close> when its paths and its values have neither parentheses nor
  quotes and no value is one of its paths.
\<close>

definition clean_mapping :: "(string \<times> string) list \<Rightarrow> bool" where
  "clean_mapping m \<longleftrightarrow>
     (\<forall>(p, u) \<in> set m. plain_text p \<and> plain_text u \<and> u \<notin> fst ` set m)"

text \<open>
  The fonts of a run whose references have no opening parenthesis: each path once,
  each as the pattern of line 87 captures it.
\<close>

definition well_formed_fonts :: "(string \<times> byte list) list \<Rightarrow> bool" where
  "well_formed_fonts fonts \<longleftrightarrow>
     distinct (map fst fonts)
     \<and> (\<forall>(p, d) \<in> set fonts. font_reference p \<and> CHR ''('' \<notin> set p)"

text \<open>Texts in which one reference contains the token of another.\<close>

definition nested_css :: string where
  "nested_css = ''url(fonts/xurl(fonts/y) url(fonts/y)''"


text \<open>A text in which the token of one reference is the tail of the token of another.\<close>

definition shadowed_css :: string where
  "shadowed_css = ''url(fonts/xurl(fonts/a) url(fonts/a)''"




section \<open>Theorems\<close>

subsection \<open>MIME classification\<close>

lemma rfind_snoc: "rfind c (s @ [x]) = (if x = c then int (length s) else rfind c s)"
proof -
  have "filter (\<lambda>i. (s @ [x]) ! i = c) (rev [0..<length s])
        = filter (\<lambda>i. s ! i = c) (rev [0..<length s])"
    by (rule filter_cong) (auto simp: nth_append)
  then show ?thesis by (simp add: rfind_def)
qed

lemma rfind_Nil [simp]: "rfind c [] = - 1"
  by (simp add: rfind_def)

lemma rfind_absent: "c \<notin> set s \<Longrightarrow> rfind c s = - 1"
  by (induction s rule: rev_induct) (auto simp: rfind_snoc)

lemma rfind_append: "c \<notin> set b \<Longrightarrow> rfind c (a @ b) = rfind c a"
proof (induction b rule: rev_induct)
  case Nil
  show ?case by simp
next
  case (snoc x b)
  then show ?case using rfind_snoc [of c "a @ b" x] by auto
qed

lemma rfind_last: "c \<notin> set b \<Longrightarrow> rfind c (a @ c # b) = int (length a)"
  using rfind_append [of c b "a @ [c]"] by (simp add: rfind_snoc)

lemma rfind_bounds:
  "rfind c s < int (length s) \<and> - 1 \<le> rfind c s
   \<and> (0 \<le> rfind c s \<longrightarrow> s ! nat (rfind c s) = c)"
  by (induction s rule: rev_induct) (auto simp: rfind_snoc nth_append)

lemma splits_at_dot_iff:
  "splits_at_dot p i j \<longleftrightarrow> (\<exists>k. i \<le> k \<and> k < j \<and> p ! k \<noteq> CHR ''.'')"
proof (induction p i j rule: splits_at_dot.induct)
  case (1 p i j)
  show ?case
  proof (cases "i < j")
    case False
    then show ?thesis by (subst splits_at_dot.simps) auto
  next
    case True
    show ?thesis
    proof (cases "p ! i \<noteq> CHR ''.''")
      case True
      with \<open>i < j\<close> show ?thesis by (subst splits_at_dot.simps) auto
    next
      case False
      then have "splits_at_dot p i j = splits_at_dot p (i + 1) j"
        using \<open>i < j\<close> by (subst splits_at_dot.simps) simp
      also have "\<dots> \<longleftrightarrow> (\<exists>k. i + 1 \<le> k \<and> k < j \<and> p ! k \<noteq> CHR ''.'')"
        using 1 \<open>i < j\<close> False by simp
      also have "\<dots> \<longleftrightarrow> (\<exists>k. i \<le> k \<and> k < j \<and> p ! k \<noteq> CHR ''.'')"
        using False by (metis Suc_eq_plus1 Suc_leD Suc_leI le_neq_implies_less)
      finally show ?thesis .
    qed
  qed
qed

lemma sep_index:
  assumes "d = [] \<or> last d = CHR ''/''" "CHR ''/'' \<notin> set n"
  shows "rfind (CHR ''/'') (d @ n) + 1 = int (length d)"
proof (cases "d = []")
  case True
  with assms show ?thesis by (simp add: rfind_absent)
next
  case False
  with assms obtain d' where d: "d = d' @ [CHR ''/'']" by (metis append_butlast_last_id)
  then show ?thesis using rfind_last [OF assms(2), of d'] by simp
qed

lemma splitext_extension:
  assumes dir: "d = [] \<or> last d = CHR ''/''" and n: "CHR ''/'' \<notin> set (stem @ CHR ''.'' # x)"
    and x: "CHR ''.'' \<notin> set x" and stem: "\<exists>c \<in> set stem. c \<noteq> CHR ''.''"
  shows "splitext (d @ stem @ CHR ''.'' # x) = (d @ stem, CHR ''.'' # x)"
proof -
  let ?p = "d @ stem @ CHR ''.'' # x"
  have sep: "rfind (CHR ''/'') ?p + 1 = int (length d)" using sep_index [OF dir n] .
  have dot: "rfind (CHR ''.'') ?p = int (length d + length stem)"
    using rfind_last [OF x, of "d @ stem"] by simp
  from stem obtain k where k: "k < length stem" "stem ! k \<noteq> CHR ''.''"
    by (auto simp: in_set_conv_nth)
  then have "?p ! (length d + k) \<noteq> CHR ''.''" by (simp add: nth_append)
  then have "splits_at_dot ?p (length d) (length d + length stem)"
    unfolding splits_at_dot_iff using k(1) by (intro exI [of _ "length d + k"]) simp
  moreover have "nat (rfind (CHR ''/'') ?p + 1) = length d" by (simp only: sep nat_int)
  moreover have "nat (rfind (CHR ''.'') ?p) = length d + length stem"
    by (simp only: dot nat_int)
  moreover have "rfind (CHR ''.'') ?p > rfind (CHR ''/'') ?p" using sep dot by arith
  ultimately show ?thesis by (simp add: splitext_def Let_def)
qed

lemma splitext_no_extension:
  assumes dir: "d = [] \<or> last d = CHR ''/''" and n: "CHR ''/'' \<notin> set x"
    and x: "CHR ''.'' \<notin> set x"
  shows "splitext (d @ replicate k (CHR ''.'') @ x) = (d @ replicate k (CHR ''.'') @ x, [])"
proof -
  let ?p = "d @ replicate k (CHR ''.'') @ x"
  have "CHR ''/'' \<notin> set (replicate k (CHR ''.'') @ x)" using n by auto
  then have sep: "rfind (CHR ''/'') ?p + 1 = int (length d)" using sep_index [OF dir] by blast
  show ?thesis
  proof (cases k)
    case 0
    have dot: "rfind (CHR ''.'') ?p = rfind (CHR ''.'') d"
      using rfind_append [OF x, of d] 0 by simp
    have "\<not> rfind (CHR ''.'') d > rfind (CHR ''/'') ?p"
    proof
      assume gt: "rfind (CHR ''.'') d > rfind (CHR ''/'') ?p"
      with sep rfind_bounds [of "CHR ''.''" d] have eq: "rfind (CHR ''.'') d = int (length d) - 1"
        and ne: "d \<noteq> []" by auto
      moreover have "nat (int (length d) - 1) = length d - 1" by arith
      ultimately have "d ! (length d - 1) = CHR ''.''"
        using rfind_bounds [of "CHR ''.''" d] ne by auto
      then have "last d = CHR ''.''" using ne by (simp add: last_conv_nth)
      with dir ne show False by simp
    qed
    then show ?thesis using dot by (simp add: splitext_def Let_def)
  next
    case (Suc j)
    have p: "?p = (d @ replicate j (CHR ''.'')) @ CHR ''.'' # x"
      using Suc by (simp add: replicate_append_same)
    have dot: "rfind (CHR ''.'') ?p = int (length d + j)"
      unfolding p using rfind_last [OF x, of "d @ replicate j (CHR ''.'')"] by simp
    have "\<not> splits_at_dot ?p (length d) (length d + j)"
      unfolding splits_at_dot_iff p
    proof clarify
      fix i assume i: "length d \<le> i" "i < length d + j"
        and ne: "((d @ replicate j (CHR ''.'')) @ CHR ''.'' # x) ! i \<noteq> CHR ''.''"
      then obtain m where "i = length d + m" "m < j" using le_Suc_ex by (metis nat_add_left_cancel_less)
      with ne show False by (simp add: nth_append)
    qed
    moreover have "nat (rfind (CHR ''/'') ?p + 1) = length d" by (simp only: sep nat_int)
    moreover have "nat (rfind (CHR ''.'') ?p) = length d + j" by (simp only: dot nat_int)
    ultimately show ?thesis by (simp add: splitext_def Let_def)
  qed
qed

lemma lower_uppercase: "map lower_char uppercase_letters = lowercase_letters"
  by code_simp

lemma letters_zip:
  "set (zip uppercase_letters lowercase_letters) = (\<lambda>u. (u, lower_char u)) ` set uppercase_letters"
proof -
  have "zip uppercase_letters (map lower_char uppercase_letters)
        = map (\<lambda>u. (u, lower_char u)) uppercase_letters"
    by (simp add: zip_map2 zip_same_conv_map)
  then show ?thesis by (simp add: lower_uppercase flip: set_map)
qed

lemma uppercase_range: "map char_of [65..<91 :: nat] = uppercase_letters"
  by code_simp

lemma uppercase_iff: "CHR ''A'' \<le> a \<and> a \<le> CHR ''Z'' \<longleftrightarrow> a \<in> set uppercase_letters"
proof
  assume "CHR ''A'' \<le> a \<and> a \<le> CHR ''Z''"
  then have "(of_char a :: nat) \<in> {65..<91}" by (simp add: less_eq_char_def)
  then have "(of_char a :: nat) \<in> set [65..<91]" by (simp only: set_upt)
  then have "char_of (of_char a :: nat) \<in> set (map char_of [65..<91 :: nat])"
    unfolding set_map by (rule imageI)
  then show "a \<in> set uppercase_letters" by (simp only: uppercase_range char_of_char)
next
  assume "a \<in> set uppercase_letters"
  then have "a \<in> char_of ` set [65..<91 :: nat]"
    by (simp only: uppercase_range [symmetric] set_map)
  then obtain n :: nat where n: "a = char_of n" "65 \<le> n" "n < 91"
    by (auto simp only: set_upt atLeastLessThan_iff)
  then have "(of_char a :: nat) = n" by simp
  with n(2,3) have "65 \<le> (of_char a :: nat)" "(of_char a :: nat) \<le> 90" by simp_all
  then show "CHR ''A'' \<le> a \<and> a \<le> CHR ''Z''" by (simp add: less_eq_char_def)
qed

lemma lower_char_upper: "(a, b) \<in> set (zip uppercase_letters lowercase_letters) \<Longrightarrow> lower_char a = b"
  unfolding letters_zip by auto

lemma lower_char_other: "a \<notin> set uppercase_letters \<Longrightarrow> lower_char a = a"
  using uppercase_iff [of a] by (auto simp: lower_char_def)

lemma upper_has_lower:
  "a \<in> set uppercase_letters \<Longrightarrow> (a, lower_char a) \<in> set (zip uppercase_letters lowercase_letters)"
  unfolding letters_zip by auto

lemma zip_upper: "(a, b) \<in> set (zip uppercase_letters lowercase_letters) \<Longrightarrow> a \<in> set uppercase_letters"
  unfolding letters_zip by auto

lemma lower_caseless:
  assumes "\<forall>b \<in> set y. b \<notin> set uppercase_letters"
  shows "lower x = y \<longleftrightarrow> caseless x y"
proof -
  have pt: "lower_char a = b \<longleftrightarrow> a = b \<or> (a, b) \<in> set (zip uppercase_letters lowercase_letters)"
    if "b \<notin> set uppercase_letters" for a b
    using that lower_char_upper [of a b] lower_char_other [of a] upper_has_lower [of a]
      zip_upper [of a b]
    by (cases "a \<in> set uppercase_letters") (simp_all, blast+)
  have "lower x = y \<longleftrightarrow> list_all2 (\<lambda>a b. lower_char a = b) x y"
    by (auto simp: lower_def list_all2_conv_all_nth list_eq_iff_nth_eq)
  also have "\<dots> \<longleftrightarrow> caseless x y"
    unfolding caseless_def using assms pt
    by (auto simp: list_all2_conv_all_nth)
  finally show ?thesis .
qed

lemma lower_dot: "lower (CHR ''.'' # x) = CHR ''.'' # lower x"
  using lower_char_other [of "CHR ''.''"] by (simp add: lower_def uppercase_letters_def)

lemma caseless_extensions:
  "lower x = ''woff2'' \<longleftrightarrow> caseless x ''woff2''"
  "lower x = ''woff'' \<longleftrightarrow> caseless x ''woff''"
  "lower x = ''ttf'' \<longleftrightarrow> caseless x ''ttf''"
  "lower x = ''eot'' \<longleftrightarrow> caseless x ''eot''"
  by (rule lower_caseless, simp add: uppercase_letters_def)+

text \<open>
  Claim C7. Every path is a directory part \<open>d\<close> (empty, or ending in a slash) followed
  by a last component without a slash. When the last component is \<open>stem.x\<close> with no
  dot in \<open>x\<close> and a character other than a dot in \<open>stem\<close>, the extension is \<open>.x\<close> and
  the classifier answers by \<open>x\<close> alone, whatever the case of its letters:
  \<^verbatim>\<open>font/woff2\<close> for \<^verbatim>\<open>woff2\<close>, \<^verbatim>\<open>font/woff\<close> for \<^verbatim>\<open>woff\<close>, \<^verbatim>\<open>font/ttf\<close> for
  \<^verbatim>\<open>ttf\<close>, \<^verbatim>\<open>application/vnd.ms-fontembedded-opentype\<close> for \<^verbatim>\<open>eot\<close> and
  \<^verbatim>\<open>application/octet-stream\<close> for every other \<open>x\<close>. Every other last component
  (\<open>k\<close> dots, then a text without a dot) has no extension and is classified
  \<^verbatim>\<open>application/octet-stream\<close>. The two cases cover all paths, and the function has
  no error branch: none of \<^verbatim>\<open>splitext\<close>, \<^verbatim>\<open>lower\<close> and \<^verbatim>\<open>dict.get\<close> raises on a
  string.
\<close>

theorem get_mime_type_by_extension:
  assumes "d = [] \<or> last d = CHR ''/''"
  shows
    "(CHR ''/'' \<notin> set (stem @ x) \<and> CHR ''.'' \<notin> set x \<and> (\<exists>c \<in> set stem. c \<noteq> CHR ''.'') \<longrightarrow>
        splitext (d @ stem @ CHR ''.'' # x) = (d @ stem, CHR ''.'' # x)
        \<and> get_mime_type (d @ stem @ CHR ''.'' # x) =
            (if caseless x ''woff2'' then ''font/woff2''
             else if caseless x ''woff'' then ''font/woff''
             else if caseless x ''ttf'' then ''font/ttf''
             else if caseless x ''eot'' then ''application/vnd.ms-fontembedded-opentype''
             else ''application/octet-stream''))
     \<and> (CHR ''/'' \<notin> set x \<and> CHR ''.'' \<notin> set x \<longrightarrow>
        splitext (d @ replicate k (CHR ''.'') @ x) = (d @ replicate k (CHR ''.'') @ x, [])
        \<and> get_mime_type (d @ replicate k (CHR ''.'') @ x) = ''application/octet-stream'')"
proof (intro conjI impI)
  assume h: "CHR ''/'' \<notin> set (stem @ x) \<and> CHR ''.'' \<notin> set x \<and> (\<exists>c \<in> set stem. c \<noteq> CHR ''.'')"
  then have n: "CHR ''/'' \<notin> set (stem @ CHR ''.'' # x)" by simp
  from h have x: "CHR ''.'' \<notin> set x" and stem: "\<exists>c \<in> set stem. c \<noteq> CHR ''.''" by simp_all
  show ext: "splitext (d @ stem @ CHR ''.'' # x) = (d @ stem, CHR ''.'' # x)"
    using assms n x stem by (rule splitext_extension)
  show "get_mime_type (d @ stem @ CHR ''.'' # x) =
            (if caseless x ''woff2'' then ''font/woff2''
             else if caseless x ''woff'' then ''font/woff''
             else if caseless x ''ttf'' then ''font/ttf''
             else if caseless x ''eot'' then ''application/vnd.ms-fontembedded-opentype''
             else ''application/octet-stream'')"
    unfolding get_mime_type_def ext Let_def snd_conv lower_dot
    by (simp add: dict_get_def mime_table_def caseless_extensions)
next
  assume h: "CHR ''/'' \<notin> set x \<and> CHR ''.'' \<notin> set x"
  show ext: "splitext (d @ replicate k (CHR ''.'') @ x) = (d @ replicate k (CHR ''.'') @ x, [])"
    using assms h by (intro splitext_no_extension) simp_all
  show "get_mime_type (d @ replicate k (CHR ''.'') @ x) = ''application/octet-stream''"
    unfolding get_mime_type_def ext Let_def snd_conv
    by (simp add: dict_get_def mime_table_def lower_def)
qed

lemma caseless_example1: "caseless ''WOFF2'' ''woff2''"
  by code_simp

lemma caseless_example2: "\<not> caseless ''EOT'' ''woff2'' \<and> \<not> caseless ''EOT'' ''woff'' \<and> \<not> caseless ''EOT'' ''ttf'' \<and> caseless ''EOT'' ''eot''"
  by code_simp

theorem get_mime_type_by_extension_witness:
  "last ''fonts/'' = CHR ''/''
   \<and> get_mime_type ''fonts/KaTeX_Main-Regular.WOFF2'' = ''font/woff2''
   \<and> get_mime_type ''fonts/KaTeX.Main.EOT'' = ''application/vnd.ms-fontembedded-opentype''
   \<and> get_mime_type ''fonts/.woff2'' = ''application/octet-stream''
   \<and> get_mime_type ''fonts/woff2'' = ''application/octet-stream''"
proof -
  have dir: "''fonts/'' = [] \<or> last ''fonts/'' = CHR ''/''" by simp
  note t1 = get_mime_type_by_extension [OF dir, of "''KaTeX_Main-Regular''" "''WOFF2''",
      THEN conjunct1, rule_format, THEN conjunct2]
  note t2 = get_mime_type_by_extension [OF dir, of "''KaTeX.Main''" "''EOT''",
      THEN conjunct1, rule_format, THEN conjunct2]
  note t3 = get_mime_type_by_extension [OF dir, of _ "''woff2''" "1",
      THEN conjunct2, rule_format, THEN conjunct2]
  note t4 = get_mime_type_by_extension [OF dir, of _ "''woff2''" "0",
      THEN conjunct2, rule_format, THEN conjunct2]
  have "get_mime_type ''fonts/KaTeX_Main-Regular.WOFF2'' = ''font/woff2''"
    using t1 caseless_example1 by simp
  moreover have "get_mime_type ''fonts/KaTeX.Main.EOT'' = ''application/vnd.ms-fontembedded-opentype''"
    using t2 caseless_example2 by simp
  moreover have "get_mime_type ''fonts/.woff2'' = ''application/octet-stream''"
    using t3 by simp
  moreover have "get_mime_type ''fonts/woff2'' = ''application/octet-stream''"
    using t4 by simp
  ultimately show ?thesis by simp
qed

subsection \<open>Encoding\<close>

lemma b64_table:
  "list_all (\<lambda>n. b64_value (b64_char n) = Some n \<and> b64_char n \<noteq> CHR ''=''
      \<and> (of_char (b64_char n) :: nat) < 128
      \<and> b64_char n \<in> set b64_alphabet
      \<and> b64_char n \<notin> {CHR ''('', CHR '')'', dquote, squote}) [0..<64]"
  by code_simp

lemma b64_value_char: "n < 64 \<Longrightarrow> b64_value (b64_char n) = Some n"
  using b64_table by (simp add: list_all_iff)

lemma b64_char_not_pad: "n < 64 \<Longrightarrow> b64_char n \<noteq> CHR ''=''"
  using b64_table by (simp add: list_all_iff)

lemma b64_char_ascii: "n < 64 \<Longrightarrow> (of_char (b64_char n) :: nat) < 128"
  using b64_table by (simp add: list_all_iff)

lemma b64_char_alphabet: "n < 64 \<Longrightarrow> b64_char n \<in> set b64_alphabet"
  using b64_table by (simp add: list_all_iff)

lemma b64_char_plain: "n < 64 \<Longrightarrow> b64_char n \<notin> {CHR ''('', CHR '')'', dquote, squote}"
  using b64_table by (simp add: list_all_iff)

lemma sextets:
  fixes a b c :: nat
  assumes "a < 256" "b < 256" "c < 256"
  shows "a div 4 < 64" "a mod 4 * 16 < 64" "a mod 4 * 16 + b div 16 < 64"
    "b mod 16 * 4 < 64" "b mod 16 * 4 + c div 64 < 64" "c mod 64 < 64"
  using assms by auto

lemma regroup:
  fixes a b c :: nat
  assumes "a < 256" "b < 256" "c < 256"
  shows "a div 4 * 4 + (a mod 4 * 16) div 16 = a"
    "a div 4 * 4 + (a mod 4 * 16 + b div 16) div 16 = a"
    "(a mod 4 * 16 + b div 16) mod 16 * 16 + (b mod 16 * 4) div 4 = b"
    "(a mod 4 * 16 + b div 16) mod 16 * 16 + (b mod 16 * 4 + c div 64) div 4 = b"
    "(b mod 16 * 4 + c div 64) mod 4 * 64 + c mod 64 = c"
proof -
  have b: "b div 16 < 16" and c: "c div 64 < 4" using assms by simp_all
  show "a div 4 * 4 + (a mod 4 * 16) div 16 = a" by simp
  show "a div 4 * 4 + (a mod 4 * 16 + b div 16) div 16 = a" using b by simp
  show "(a mod 4 * 16 + b div 16) mod 16 * 16 + (b mod 16 * 4) div 4 = b" using b by simp
  show "(a mod 4 * 16 + b div 16) mod 16 * 16 + (b mod 16 * 4 + c div 64) div 4 = b"
    using b c by simp
  show "(b mod 16 * 4 + c div 64) mod 4 * 64 + c mod 64 = c" using c by simp
qed

lemma byte_bound: "unat (a :: byte) < 256"
  using unsigned_less [of a] by simp

lemma b64_roundtrip: "b64decode (b64encode bs) = Some bs"
proof (induction bs rule: b64encode.induct)
  case 1
  show ?case by simp
next
  case (2 a)
  note a = byte_bound [of a]
  show ?case
    using sextets(1,2) [OF a a a] regroup(1) [OF a a a]
    by (simp add: b64_value_char)
next
  case (3 a b)
  note a = byte_bound [of a] and b = byte_bound [of b]
  show ?case
    using sextets(1,3,4) [OF a b b] regroup(2,3) [OF a b b]
    by (simp add: b64_value_char b64_char_not_pad)
next
  case (4 a b c rest)
  note a = byte_bound [of a] and b = byte_bound [of b] and c = byte_bound [of c]
  show ?case
    using 4 sextets(1,3,5,6) [OF a b c] regroup(2,4,5) [OF a b c]
    by (simp add: b64_value_char b64_char_not_pad)
qed

text \<open>
  Every character of the encoding satisfies a property that the 64 characters of the
  alphabet and the padding character have.
\<close>

lemma b64encode_all:
  assumes "\<And>n. n < 64 \<Longrightarrow> P (b64_char n)" and "P (CHR ''='')"
  shows "list_all P (b64encode bs)"
proof (induction bs rule: b64encode.induct)
  case 1
  show ?case by simp
next
  case (2 a)
  note a = byte_bound [of a]
  show ?case using sextets(1,2) [OF a a a] assms by simp
next
  case (3 a b)
  note a = byte_bound [of a] and b = byte_bound [of b]
  show ?case using sextets(1,3,4) [OF a b b] assms by simp
next
  case (4 a b c rest)
  note a = byte_bound [of a] and b = byte_bound [of b] and c = byte_bound [of c]
  show ?case using 4 sextets(1,3,5,6) [OF a b c] assms by simp
qed

lemma b64encode_length: "length (b64encode bs) = 4 * ((length bs + 2) div 3)"
proof (induction bs rule: b64encode.induct)
  case (4 a b c rest)
  have "(length rest + 5) div 3 = Suc ((length rest + 2) div 3)" by presburger
  with 4 show ?case by (simp add: add.commute)
qed simp_all

lemma get_mime_type_cases:
  "get_mime_type p \<in> {''font/woff2'', ''font/woff'', ''font/ttf'',
     ''application/vnd.ms-fontembedded-opentype'', ''application/octet-stream''}"
  by (simp add: get_mime_type_def dict_get_def mime_table_def Let_def)

lemma is_ascii_append [simp]: "is_ascii (a @ b) \<longleftrightarrow> is_ascii a \<and> is_ascii b"
  by (simp add: is_ascii_def)

lemma is_ascii_mime: "is_ascii (get_mime_type p)"
  using get_mime_type_cases [of p] by (auto simp: is_ascii_def)

lemma is_ascii_b64encode: "is_ascii (b64encode bs)"
  unfolding is_ascii_def by (rule b64encode_all) (simp_all add: b64_char_ascii)

lemma payload_encode_font: "payload (encode_font p d) = b64encode d"
  using get_mime_type_cases [of p] by (auto simp: payload_def encode_font_def)

lemma mime_segment_encode_font: "mime_segment (encode_font p d) = get_mime_type p"
  using get_mime_type_cases [of p] by (auto simp: mime_segment_def encode_font_def)

text \<open>
  Claim C3. For every path and every byte sequence, the data URI is
  \<^verbatim>\<open>data:<mime>;base64,<p>\<close> with \<open>mime\<close> the classifier's answer for the path and
  \<open>p\<close> the base64 text of the bytes; \<open>p\<close> is written in the standard alphabet (with
  \<^verbatim>\<open>+\<close> and \<^verbatim>\<open>/\<close>) and padded to a multiple of four characters; the whole URI is
  ASCII; the payload behind the comma is \<open>p\<close>, and decoding it gives the bytes back;
  the MIME segment is the classifier's answer.
\<close>

theorem encode_font_roundtrip:
  "encode_font font_path font_data
     = ''data:'' @ get_mime_type font_path @ '';base64,'' @ b64encode font_data
   \<and> list_all (\<lambda>c. c \<in> set b64_alphabet \<or> c = CHR ''='') (b64encode font_data)
   \<and> length (b64encode font_data) = 4 * ((length font_data + 2) div 3)
   \<and> is_ascii (encode_font font_path font_data)
   \<and> payload (encode_font font_path font_data) = b64encode font_data
   \<and> b64decode (payload (encode_font font_path font_data)) = Some font_data
   \<and> mime_segment (encode_font font_path font_data) = get_mime_type font_path"
proof -
  have "list_all (\<lambda>c. c \<in> set b64_alphabet \<or> c = CHR ''='') (b64encode font_data)"
    by (rule b64encode_all) (simp_all add: b64_char_alphabet)
  moreover have "is_ascii ''data:''" and "is_ascii '';base64,''"
    by (simp_all add: is_ascii_def)
  then have "is_ascii (encode_font font_path font_data)"
    by (simp add: encode_font_def is_ascii_mime is_ascii_b64encode del: append.simps)
  ultimately show ?thesis
    by (simp add: payload_encode_font mime_segment_encode_font b64_roundtrip
        b64encode_length) (simp add: encode_font_def)
qed


subsection \<open>The world\<close>

lemma print_simps [simp]:
  "fs (print w m) = fs w" "remote (print w m) = remote w"
  "os_makedirs (print w m) = os_makedirs w" "os_write (print w m) = os_write w"
  "requests (print w m) = requests w" "console (print w m) = console w @ [m]"
  by (simp_all add: print_def)

text \<open>
  Claim C8. When the input stylesheet does not exist, the run prints its two
  diagnostic lines and returns: the file system is what it was (no output file, no
  cache file), and no request was sent.
\<close>

theorem missing_input_guard:
  assumes "\<not> path_exists w INPUT_FILE"
  shows "snd (bundle_css w) = Inr ()
    \<and> fs (fst (bundle_css w)) = fs w
    \<and> requests (fst (bundle_css w)) = requests w
    \<and> console (fst (bundle_css w)) = console w @ [InputNotFound INPUT_FILE, RunFromHint]"
  using assms by (simp add: bundle_css_def)

theorem missing_input_guard_witness:
  "\<not> path_exists empty_world INPUT_FILE
   \<and> snd (bundle_css empty_world) = Inr ()
   \<and> fs (fst (bundle_css empty_world)) = Map.empty
   \<and> requests (fst (bundle_css empty_world)) = []
   \<and> console (fst (bundle_css empty_world)) = [InputNotFound ''katex.min.css'', RunFromHint]"
proof -
  have h: "\<not> path_exists empty_world INPUT_FILE"
    by (simp add: path_exists_def empty_world_def)
  show ?thesis
    using h missing_input_guard [OF h] by (simp add: empty_world_def INPUT_FILE_def)
qed


subsection \<open>Obtaining a font\<close>

lemma makedirs_Inr:
  "makedirs w d = Inr w1 \<longleftrightarrow> (\<exists>files. os_makedirs w (fs w) d = Inr files \<and> w1 = w\<lparr>fs := files\<rparr>)"
  by (auto simp: makedirs_def split: sum.splits)

lemma write_bytes_Inr:
  "write_bytes w p data = Inr w1 \<longleftrightarrow> (\<exists>files. os_write w (fs w) p data = Inr files \<and> w1 = w\<lparr>fs := files\<rparr>)"
  by (auto simp: write_bytes_def split: sum.splits)

lemma download_font_hit:
  assumes "fs w p = Some (File data)"
  shows "download_font w p = (print w (Cached p), Inr data)"
  using assms by (simp add: download_font_def path_exists_def read_bytes_def)

lemma download_font_miss:
  assumes absent: "fs w p = None"
    and dirs: "os_makedirs w (fs w) (dirname p) = Inr files1"
    and body: "remote w (CDN_BASE @ p) = Inr data"
    and wr: "os_write w files1 p data = Inr files2"
  shows "download_font w p
         = (w\<lparr>fs := files2, requests := requests w @ [CDN_BASE @ p],
               console := console w @ [Download (CDN_BASE @ p)]\<rparr>, Inr data)"
  using assms
  by (simp add: download_font_def path_exists_def makedirs_def urlopen_def write_bytes_def
      print_def Let_def)

lemma download_font_success:
  assumes ok: "download_font w p = (w', Inr data)"
  shows "fs w p \<noteq> None \<longrightarrow> fs w p = Some (File data) \<and> requests w' = requests w \<and> fs w' = fs w"
    and "fs w p = None \<longrightarrow>
          (\<exists>files1. os_makedirs w (fs w) (dirname p) = Inr files1
             \<and> remote w (CDN_BASE @ p) = Inr data
             \<and> os_write w files1 p data = Inr (fs w')
             \<and> requests w' = requests w @ [CDN_BASE @ p])"
proof -
  show "fs w p \<noteq> None \<longrightarrow> fs w p = Some (File data) \<and> requests w' = requests w \<and> fs w' = fs w"
    using ok
    by (auto simp: download_font_def path_exists_def read_bytes_def Let_def
        split: option.splits node.splits)
  show "fs w p = None \<longrightarrow>
          (\<exists>files1. os_makedirs w (fs w) (dirname p) = Inr files1
             \<and> remote w (CDN_BASE @ p) = Inr data
             \<and> os_write w files1 p data = Inr (fs w')
             \<and> requests w' = requests w @ [CDN_BASE @ p])"
  proof
    assume absent: "fs w p = None"
    from ok absent obtain files1 where dirs: "os_makedirs w (fs w) (dirname p) = Inr files1"
      by (auto simp: download_font_def path_exists_def makedirs_def Let_def split: sum.splits)
    from ok absent dirs have body: "remote w (CDN_BASE @ p) = Inr data"
      by (auto simp: download_font_def path_exists_def makedirs_def urlopen_def Let_def
          split: sum.splits)
    from ok absent dirs body obtain files2 where wr: "os_write w files1 p data = Inr files2"
      by (auto simp: download_font_def path_exists_def makedirs_def urlopen_def
          write_bytes_def Let_def split: sum.splits)
    from download_font_miss [OF absent dirs body wr] ok
    have "fs w' = files2" "requests w' = requests w @ [CDN_BASE @ p]" by auto
    with dirs body wr show "\<exists>files1. os_makedirs w (fs w) (dirname p) = Inr files1
             \<and> remote w (CDN_BASE @ p) = Inr data
             \<and> os_write w files1 p data = Inr (fs w')
             \<and> requests w' = requests w @ [CDN_BASE @ p]" by auto
  qed
qed

lemma download_font_cached_after:
  assumes law: "write_stores w" and ok: "download_font w p = (w', Inr data)"
  shows "fs w' p = Some (File data)"
proof (cases "fs w p = None")
  case True
  with download_font_success(2) [OF ok] obtain files1
    where "os_write w files1 p data = Inr (fs w')" by auto
  with law show ?thesis unfolding write_stores_def by blast
next
  case False
  with download_font_success(1) [OF ok] show ?thesis by simp
qed

text \<open>
  Claim C6. When the path shows a file, \<open>download_font\<close> returns its bytes, sends no
  request and leaves the files as they are. When the path shows nothing, the
  operating system makes the directories and the remote source answers, the bytes of
  the answer are written to the path and returned, after the one request for the base
  URL followed by the path. Whenever it returns bytes, it has either read them from
  the path without a request, or received them for this one request and written
  exactly them to the path; on an operating system whose successful write leaves a
  file with the bytes written, the path shows a file with exactly the returned bytes
  afterwards.
\<close>

theorem download_font_cache_precedence:
  "(fs w p = Some (File data) \<longrightarrow>
      download_font w p = (print w (Cached p), Inr data)
      \<and> requests (fst (download_font w p)) = requests w
      \<and> fs (fst (download_font w p)) = fs w)
   \<and> (fs w p = None \<and> os_makedirs w (fs w) (dirname p) = Inr files1
        \<and> remote w (CDN_BASE @ p) = Inr data \<and> os_write w files1 p data = Inr files2 \<longrightarrow>
      snd (download_font w p) = Inr data
      \<and> requests (fst (download_font w p)) = requests w @ [CDN_BASE @ p]
      \<and> fs (fst (download_font w p)) = files2)
   \<and> (download_font w p = (w', Inr data') \<longrightarrow>
        (fs w p \<noteq> None \<longrightarrow>
           fs w p = Some (File data') \<and> requests w' = requests w \<and> fs w' = fs w)
        \<and> (fs w p = None \<longrightarrow>
             (\<exists>files. os_makedirs w (fs w) (dirname p) = Inr files
                \<and> remote w (CDN_BASE @ p) = Inr data'
                \<and> os_write w files p data' = Inr (fs w')
                \<and> requests w' = requests w @ [CDN_BASE @ p]))
        \<and> (write_stores w \<longrightarrow> fs w' p = Some (File data')))"
proof -
  have c1: "fs w p = Some (File data) \<longrightarrow>
      download_font w p = (print w (Cached p), Inr data)
      \<and> requests (fst (download_font w p)) = requests w
      \<and> fs (fst (download_font w p)) = fs w"
    by (simp add: download_font_hit)
  have c2: "fs w p = None \<and> os_makedirs w (fs w) (dirname p) = Inr files1
        \<and> remote w (CDN_BASE @ p) = Inr data \<and> os_write w files1 p data = Inr files2 \<longrightarrow>
      snd (download_font w p) = Inr data
      \<and> requests (fst (download_font w p)) = requests w @ [CDN_BASE @ p]
      \<and> fs (fst (download_font w p)) = files2"
    by (simp add: download_font_miss)
  have c3: "download_font w p = (w', Inr data') \<longrightarrow>
        (fs w p \<noteq> None \<longrightarrow>
           fs w p = Some (File data') \<and> requests w' = requests w \<and> fs w' = fs w)
        \<and> (fs w p = None \<longrightarrow>
             (\<exists>files. os_makedirs w (fs w) (dirname p) = Inr files
                \<and> remote w (CDN_BASE @ p) = Inr data'
                \<and> os_write w files p data' = Inr (fs w')
                \<and> requests w' = requests w @ [CDN_BASE @ p]))
        \<and> (write_stores w \<longrightarrow> fs w' p = Some (File data'))"
    using download_font_success [of w p w' data'] download_font_cached_after [of w p w' data']
    by blast
  show ?thesis by (intro conjI c1 c2 c3)
qed

lemma dirname_example: "dirname ''fonts/A.woff2'' = ''fonts''"
  by code_simp

lemma write_stores_example [simp]:
  "write_stores empty_world" "write_stores cached_world" "write_stores remote_world"
  by (auto simp: write_stores_def empty_world_def cached_world_def remote_world_def
      example_write_def split: if_splits)

theorem download_font_cache_precedence_witness:
  "fs cached_world ''fonts/A.woff2'' = Some (File [0x41, 0x42, 0x43])
   \<and> download_font cached_world ''fonts/A.woff2''
       = (print cached_world (Cached ''fonts/A.woff2''), Inr [0x41, 0x42, 0x43])
   \<and> fs remote_world ''fonts/A.woff2'' = None
   \<and> write_stores remote_world
   \<and> snd (download_font remote_world ''fonts/A.woff2'') = Inr [1, 2, 3]
   \<and> requests (fst (download_font remote_world ''fonts/A.woff2'')) = [CDN_BASE @ ''fonts/A.woff2'']
   \<and> fs (fst (download_font remote_world ''fonts/A.woff2'')) ''fonts/A.woff2'' = Some (File [1, 2, 3])"
proof -
  have hit: "fs cached_world ''fonts/A.woff2'' = Some (File [0x41, 0x42, 0x43])"
    by (simp add: cached_world_def)
  have absent: "fs remote_world ''fonts/A.woff2'' = None"
    by (simp add: remote_world_def)
  define files1 :: files where "files1 = [''fonts'' \<mapsto> Special IsADirectoryError 0]"
  define files2 :: files where "files2 = files1(''fonts/A.woff2'' \<mapsto> File [1, 2, 3])"
  have dirs: "os_makedirs remote_world (fs remote_world) (dirname ''fonts/A.woff2'') = Inr files1"
    by (simp add: dirname_example remote_world_def example_makedirs_def files1_def)
  have body: "remote remote_world (CDN_BASE @ ''fonts/A.woff2'') = Inr [1, 2, 3]"
    by (simp add: remote_world_def)
  have wr: "os_write remote_world files1 ''fonts/A.woff2'' [1, 2, 3] = Inr files2"
    by (simp add: remote_world_def example_write_def files2_def)
  have req: "requests remote_world = []" by (simp add: remote_world_def)
  note t1 = download_font_cache_precedence
    [of cached_world "''fonts/A.woff2''" "[0x41, 0x42, 0x43]",
      THEN conjunct1, rule_format, OF hit, THEN conjunct1]
  note t2 = download_font_cache_precedence
    [of remote_world "''fonts/A.woff2''" "[1, 2, 3]" files1 files2,
      THEN conjunct2, THEN conjunct1, rule_format,
      OF conjI [OF absent conjI [OF dirs conjI [OF body wr]]]]
  have "fs (fst (download_font remote_world ''fonts/A.woff2'')) ''fonts/A.woff2'' = Some (File [1, 2, 3])"
    using t2 by (simp add: files2_def)
  with t2 req hit absent t1 show ?thesis by simp
qed


section \<open>Substitution\<close>

subsection \<open>Bracketed texts\<close>

lemma bracketed_length: "bracketed t \<Longrightarrow> 5 \<le> length t"
  by (auto simp: bracketed_def)

lemma bracketed_nonempty: "bracketed t \<Longrightarrow> t \<noteq> []"
  by (auto simp: bracketed_def)

lemma bracketed_open: "bracketed t \<Longrightarrow> t ! 3 = CHR ''(''"
  by (auto simp: bracketed_def)

lemma bracketed_open_unique:
  assumes "bracketed t" "i < length t" "t ! i = CHR ''(''"
  shows "i = 3"
proof -
  from assms(1) obtain b where t: "t = ''url('' @ b @ '')''"
    and b: "CHR ''('' \<notin> set b" by (auto simp: bracketed_def)
  show ?thesis
  proof (rule ccontr)
    assume ne: "i \<noteq> 3"
    show False
    proof (cases "i < 4")
      case True
      with ne have "i = 0 \<or> i = 1 \<or> i = 2" by arith
      with assms(3) t show False by auto
    next
      case False
      then obtain j where j: "i = 4 + j" using le_Suc_ex [of 4 i] by auto
      have "t ! i = (b @ '')'') ! j"
        using nth_append_length_plus [of "''url(''" "b @ '')''" j] t j by simp
      moreover have "(b @ '')'') ! j \<noteq> CHR ''(''"
      proof (cases "j < length b")
        case True
        then have "b ! j \<noteq> CHR ''(''" using b by (metis nth_mem)
        with True show ?thesis by (simp add: nth_append)
      next
        case False
        with assms(2) t j have "j = length b" by simp
        then show ?thesis by simp
      qed
      ultimately show False using assms(3) by simp
    qed
  qed
qed

lemma bracketed_close: "bracketed t \<Longrightarrow> t ! (length t - 1) = CHR '')''"
  by (auto simp: bracketed_def nth_append)

lemma bracketed_close_unique:
  assumes "bracketed t" "i < length t" "t ! i = CHR '')''"
  shows "Suc i = length t"
proof -
  from assms(1) obtain b where t: "t = ''url('' @ b @ '')''"
    and b: "CHR '')'' \<notin> set b" by (auto simp: bracketed_def)
  show ?thesis
  proof (rule ccontr)
    assume ne: "Suc i \<noteq> length t"
    show False
    proof (cases "i < 4")
      case True
      then have "i = 0 \<or> i = 1 \<or> i = 2 \<or> i = 3" by arith
      with assms(3) t show False by auto
    next
      case False
      then obtain j where j: "i = 4 + j" using le_Suc_ex [of 4 i] by auto
      with ne assms(2) t have jb: "j < length b" by simp
      have "t ! i = (b @ '')'') ! j"
        using nth_append_length_plus [of "''url(''" "b @ '')''" j] t j by simp
      with jb have "t ! i = b ! j" by (simp add: nth_append)
      moreover have "b ! j \<noteq> CHR '')''" using b jb by (metis nth_mem)
      ultimately show False using assms(3) by simp
    qed
  qed
qed

lemma prefix_nth: "prefix p s \<Longrightarrow> i < length p \<Longrightarrow> s ! i = p ! i"
  by (auto simp: prefix_def nth_append)

text \<open>A bracketed pattern that starts inside a bracketed token is the token.\<close>

lemma bracketed_inside:
  assumes P: "bracketed P" and X: "bracketed X"
    and split: "X = X0 @ X'" and ne: "X' \<noteq> []" and pre: "prefix P (X' @ r)"
  shows "X0 = [] \<and> X = P"
proof -
  have lenP: "5 \<le> length P" and lenX: "5 \<le> length X"
    using P X by (simp_all add: bracketed_length)
  have X0: "X0 = []"
  proof (rule ccontr)
    assume X0ne: "X0 \<noteq> []"
    show False
    proof (cases "3 < length X'")
      case True
      have "(X' @ r) ! 3 = P ! 3" using pre lenP by (intro prefix_nth) simp_all
      then have "X' ! 3 = CHR ''(''" using True bracketed_open [OF P] by (simp add: nth_append)
      then have "X ! (length X0 + 3) = CHR ''(''" using split by (simp add: nth_append)
      moreover have "length X0 + 3 < length X" using split True by simp
      ultimately have "length X0 + 3 = 3" using bracketed_open_unique [OF X] by blast
      with X0ne show False by simp
    next
      case False
      define k where "k = length X' - 1"
      have k: "k < length X'" "k \<le> 2" using ne False by (simp_all add: k_def)
      have "X' ! k = last X'" using ne by (simp add: k_def last_conv_nth)
      also have "\<dots> = last X" using split ne by simp
      also have "\<dots> = X ! (length X - 1)"
        using bracketed_nonempty [OF X] by (simp add: last_conv_nth)
      finally have "X' ! k = CHR '')''" using bracketed_close [OF X] by simp
      moreover have "(X' @ r) ! k = P ! k" using pre lenP k by (intro prefix_nth) simp_all
      ultimately have "P ! k = CHR '')''" using k by (simp add: nth_append)
      then have "Suc k = length P" using bracketed_close_unique [OF P] lenP k by simp
      with lenP k show False by simp
    qed
  qed
  with split have XX: "X' = X" by simp
  have "length P = length X"
  proof (rule ccontr)
    assume neq: "length P \<noteq> length X"
    show False
    proof (cases "length P < length X")
      case True
      have "(X @ r) ! (length P - 1) = P ! (length P - 1)"
        using pre XX lenP by (intro prefix_nth) simp_all
      moreover have "length P - 1 < length X" using True by simp
      ultimately have "X ! (length P - 1) = CHR '')''"
        using bracketed_close [OF P] by (simp add: nth_append)
      then have "Suc (length P - 1) = length X"
        using bracketed_close_unique [OF X] True by simp
      with True lenP show False by simp
    next
      case False
      with neq have gt: "length X < length P" by simp
      have "(X @ r) ! (length X - 1) = P ! (length X - 1)"
        using pre XX gt lenX by (intro prefix_nth) simp_all
      moreover have "length X - 1 < length X" using lenX by simp
      ultimately have "P ! (length X - 1) = CHR '')''"
        using bracketed_close [OF X] by (simp add: nth_append)
      then have "Suc (length X - 1) = length P"
        using bracketed_close_unique [OF P] gt by simp
      with gt lenX show False by simp
    qed
  qed
  with pre XX have "P = X" by (auto simp: prefix_def)
  with X0 show ?thesis by simp
qed

text \<open>A bracketed pattern that reaches into a bracketed token starts with it.\<close>

lemma bracketed_straddle:
  assumes P: "bracketed P" and X: "bracketed X"
    and pre: "prefix P (a @ X @ r)" and short: "length a < length P"
  shows "a = []"
proof (rule ccontr)
  assume ane: "a \<noteq> []"
  have lenP: "5 \<le> length P" and lenX: "5 \<le> length X"
    using P X by (simp_all add: bracketed_length)
  show False
  proof (cases "length a + 3 < length P")
    case True
    have "(a @ X @ r) ! (length a + 3) = P ! (length a + 3)"
      using pre True by (intro prefix_nth) simp_all
    moreover have "(a @ X @ r) ! (length a + 3) = X ! 3"
      using lenX by (simp add: nth_append)
    ultimately have "P ! (length a + 3) = CHR ''(''" using bracketed_open [OF X] by simp
    then have "length a + 3 = 3" using bracketed_open_unique [OF P] True by blast
    with ane show False by simp
  next
    case False
    define k where "k = length P - 1 - length a"
    have k: "k \<le> 2" "length a + k = length P - 1" using False short by (simp_all add: k_def)
    have "(a @ X @ r) ! (length P - 1) = P ! (length P - 1)"
      using pre lenP by (intro prefix_nth) simp_all
    moreover have "(a @ X @ r) ! (length a + k) = X ! k"
      using k(1) lenX by (simp add: nth_append)
    then have "(a @ X @ r) ! (length P - 1) = X ! k"
      using k by simp
    ultimately have "X ! k = CHR '')''" using bracketed_close [OF P] by simp
    then have "Suc k = length X" using bracketed_close_unique [OF X] k lenX by simp
    with k lenX show False by simp
  qed
qed

subsection \<open>The one-pass substitution around a token\<close>

lemma spec_substitute_Nil [simp]: "spec_substitute pairs [] = []"
  by (simp add: spec_substitute.simps)

lemma spec_substitute_hit:
  assumes "s \<noteq> []" "find (\<lambda>(old, new). old \<noteq> [] \<and> prefix old s) pairs = Some (old, new)"
  shows "spec_substitute pairs s = new @ spec_substitute pairs (drop (length old) s)"
  using assms by (subst spec_substitute.simps) simp

lemma spec_substitute_miss:
  assumes "find (\<lambda>(old, new). old \<noteq> [] \<and> prefix old (c # s)) pairs = None"
  shows "spec_substitute pairs (c # s) = c # spec_substitute pairs s"
  using assms by (subst spec_substitute.simps) simp

lemma replace_as_spec_substitute:
  "old \<noteq> [] \<Longrightarrow> replace s old new = spec_substitute [(old, new)] s"
proof (induction s old new rule: replace.induct)
  case (1 s old new)
  show ?case
  proof (cases "s = []")
    case True
    with 1 show ?thesis by (simp add: replace.simps)
  next
    case False
    with 1 show ?thesis
      by (subst replace.simps, subst spec_substitute.simps) simp
  qed
qed

lemma find_at_token:
  assumes pats: "\<forall>(old, new) \<in> set pairs. bracketed old" and X: "bracketed X"
    and split: "X = X0 @ X'" and ne: "X' \<noteq> []"
  shows "find (\<lambda>(old, new). old \<noteq> [] \<and> prefix old (X' @ r)) pairs
         = (if X0 = [] then find (\<lambda>(old, new). old = X) pairs else None)"
proof -
  have eq: "(case x of (old, new) \<Rightarrow> old \<noteq> [] \<and> prefix old (X' @ r))
            = (case x of (old, new) \<Rightarrow> X0 = [] \<and> old = X)" if "x \<in> set pairs" for x
  proof -
    obtain old new where x: "x = (old, new)" by (cases x)
    with pats that have b: "bracketed old" by auto
    show ?thesis
      using bracketed_inside [OF b X split ne, of r] bracketed_nonempty [OF b] split x
      by auto
  qed
  have "find (\<lambda>(old, new). old \<noteq> [] \<and> prefix old (X' @ r)) pairs
        = find (\<lambda>(old, new). X0 = [] \<and> old = X) pairs"
    by (rule find_cong) (simp_all add: eq)
  also have "\<dots> = (if X0 = [] then find (\<lambda>(old, new). old = X) pairs else None)"
    by (auto simp: find_None_iff)
  finally show ?thesis .
qed

lemma spec_substitute_inside:
  assumes pats: "\<forall>(old, new) \<in> set pairs. bracketed old" and X: "bracketed X"
    and nohit: "X0 \<noteq> [] \<or> find (\<lambda>(old, new). old = X) pairs = None"
  shows "X = X0 @ X' \<Longrightarrow> spec_substitute pairs (X' @ r) = X' @ spec_substitute pairs r"
  using nohit
proof (induction X' arbitrary: X0)
  case Nil
  then show ?case by simp
next
  case (Cons c X'')
  have "find (\<lambda>(old, new). old \<noteq> [] \<and> prefix old ((c # X'') @ r)) pairs = None"
    using find_at_token [OF pats X Cons.prems(1), of r] Cons.prems(2) by auto
  then have "spec_substitute pairs ((c # X'') @ r) = c # spec_substitute pairs (X'' @ r)"
    by (simp add: spec_substitute_miss)
  moreover have "X = (X0 @ [c]) @ X''" using Cons.prems by simp
  ultimately show ?case using Cons.IH [of "X0 @ [c]"] by simp
qed

lemma find_before_token:
  assumes pats: "\<forall>(old, new) \<in> set pairs. bracketed old" and X: "bracketed X"
    and ane: "a \<noteq> []"
  shows "find (\<lambda>(old, new). old \<noteq> [] \<and> prefix old (a @ X @ r)) pairs
         = find (\<lambda>(old, new). old \<noteq> [] \<and> prefix old a) pairs"
proof (rule find_cong [OF refl])
  fix x assume xin: "x \<in> set pairs"
  obtain old new where x: "x = (old, new)" by (cases x)
  with pats xin have b: "bracketed old" by auto
  have "prefix old (a @ X @ r) \<longleftrightarrow> prefix old a"
  proof
    assume p: "prefix old (a @ X @ r)"
    then have "\<not> length a < length old" using bracketed_straddle [OF b X p] ane by auto
    with p show "prefix old a" by (auto simp: prefix_append)
  next
    assume "prefix old a" then show "prefix old (a @ X @ r)" by (rule prefix_prefix)
  qed
  then show "(case x of (old, new) \<Rightarrow> old \<noteq> [] \<and> prefix old (a @ X @ r))
             = (case x of (old, new) \<Rightarrow> old \<noteq> [] \<and> prefix old a)"
    using x by simp
qed

lemma spec_substitute_barrier:
  assumes pats: "\<forall>(old, new) \<in> set pairs. bracketed old" and X: "bracketed X"
  shows "spec_substitute pairs (a @ X @ r)
         = spec_substitute pairs a @ token_image pairs X @ spec_substitute pairs r"
proof (induction a rule: length_induct)
  case (1 a)
  show ?case
  proof (cases a)
    case Nil
    have Xne: "X \<noteq> []" using X by (rule bracketed_nonempty)
    show ?thesis
    proof (cases "find (\<lambda>(old, new). old = X) pairs")
      case None
      then show ?thesis
        using Nil spec_substitute_inside [OF pats X, of "[]" X r] by (simp add: token_image_def)
    next
      case (Some hit)
      obtain old new where hit: "hit = (old, new)" by (cases hit)
      with Some have old: "old = X" by (auto simp: find_Some_iff)
      have "find (\<lambda>(old, new). old \<noteq> [] \<and> prefix old (X @ r)) pairs = Some (old, new)"
        using find_at_token [OF pats X _ Xne, of "[]" r] Some hit by simp
      then have "spec_substitute pairs (X @ r) = new @ spec_substitute pairs r"
        using spec_substitute_hit [of "X @ r" pairs old new] Xne old by simp
      then show ?thesis using Nil Some hit by (simp add: token_image_def)
    qed
  next
    case (Cons c a')
    then have ane: "a \<noteq> []" by simp
    note same = find_before_token [OF pats X ane, of r]
    show ?thesis
    proof (cases "find (\<lambda>(old, new). old \<noteq> [] \<and> prefix old a) pairs")
      case None
      then have "spec_substitute pairs (a @ X @ r) = c # spec_substitute pairs (a' @ X @ r)"
        and "spec_substitute pairs a = c # spec_substitute pairs a'"
        using same Cons by (simp_all add: spec_substitute_miss)
      moreover have "spec_substitute pairs (a' @ X @ r)
          = spec_substitute pairs a' @ token_image pairs X @ spec_substitute pairs r"
        using 1 Cons by simp
      ultimately show ?thesis by simp
    next
      case (Some hit)
      obtain old new where hit: "hit = (old, new)" by (cases hit)
      with Some have old: "old \<noteq> []" "prefix old a" by (auto simp: find_Some_iff)
      then obtain a'' where a: "a = old @ a''" by (auto simp: prefix_def)
      have "spec_substitute pairs (a @ X @ r)
            = new @ spec_substitute pairs (drop (length old) (a @ X @ r))"
        using spec_substitute_hit [of "a @ X @ r" pairs old new] same Some hit ane by simp
      moreover have "spec_substitute pairs a = new @ spec_substitute pairs (drop (length old) a)"
        using spec_substitute_hit [of a pairs old new] Some hit ane by simp
      moreover have "length a'' < length a" using a old by simp
      then have "spec_substitute pairs (a'' @ X @ r)
          = spec_substitute pairs a'' @ token_image pairs X @ spec_substitute pairs r"
        using 1 by blast
      ultimately show ?thesis using a by simp
    qed
  qed
qed

lemma replace_barrier:
  assumes P: "bracketed P" and X: "bracketed X"
  shows "replace (a @ X @ r) P N = replace a P N @ (if X = P then N else X) @ replace r P N"
  using spec_substitute_barrier [of "[(P, N)]" X a r] P X bracketed_nonempty [OF P]
  by (auto simp: replace_as_spec_substitute token_image_def)

subsection \<open>Texts without a token\<close>

lemma has_token_suffix: "has_token s \<Longrightarrow> has_token (a @ s)"
proof -
  assume "has_token s"
  then obtain b X r where "s = b @ X @ r" "bracketed X" by (auto simp: has_token_def)
  then have "a @ s = (a @ b) @ X @ r \<and> bracketed X" by simp
  then show ?thesis unfolding has_token_def by blast
qed

lemma has_token_prefix: "bracketed X \<Longrightarrow> prefix X s \<Longrightarrow> has_token s"
  unfolding has_token_def prefix_def by (metis append_Nil)

lemma spec_substitute_token_free:
  assumes pats: "\<forall>(old, new) \<in> set pairs. bracketed old"
  shows "\<not> has_token s \<Longrightarrow> spec_substitute pairs s = s"
proof (induction s)
  case Nil
  show ?case by simp
next
  case (Cons c s)
  have "find (\<lambda>(old, new). old \<noteq> [] \<and> prefix old (c # s)) pairs = None"
    using pats Cons.prems has_token_prefix [of _ "c # s"] by (auto simp: find_None_iff)
  moreover have "\<not> has_token s" using Cons.prems has_token_suffix [of s "[c]"] by auto
  ultimately show ?case using Cons.IH by (simp add: spec_substitute_miss)
qed

lemma replace_token_free:
  "bracketed P \<Longrightarrow> \<not> has_token s \<Longrightarrow> replace s P N = s"
  using spec_substitute_token_free [of "[(P, N)]" s] bracketed_nonempty [of P]
  by (simp add: replace_as_spec_substitute)

text \<open>Two functions that agree on texts without a token and around every token agree.\<close>

lemma token_induction:
  assumes free: "\<And>s. \<not> has_token s \<Longrightarrow> F s = G s"
    and F: "\<And>a X r. bracketed X \<Longrightarrow> F (a @ X @ r) = F a @ t X @ F r"
    and G: "\<And>a X r. bracketed X \<Longrightarrow> G (a @ X @ r) = G a @ t X @ G r"
  shows "F s = G s"
proof (induction s rule: length_induct)
  case (1 s)
  show ?case
  proof (cases "has_token s")
    case False
    then show ?thesis by (rule free)
  next
    case True
    then obtain a X r where s: "s = a @ X @ r" and X: "bracketed X"
      by (auto simp: has_token_def)
    have "length a < length s" "length r < length s"
      using s bracketed_nonempty [OF X] by simp_all
    then have "F a = G a" "F r = G r" using 1 by blast+
    then show ?thesis using s F [OF X] G [OF X] by simp
  qed
qed

subsection \<open>The three forms\<close>

lemma quotes_not_parens [simp]:
  "dquote \<noteq> CHR ''(''" "dquote \<noteq> CHR '')''" "squote \<noteq> CHR ''(''" "squote \<noteq> CHR '')''"
  "CHR ''('' \<noteq> dquote" "CHR '')'' \<noteq> dquote" "CHR ''('' \<noteq> squote" "CHR '')'' \<noteq> squote"
  "dquote \<noteq> squote" "squote \<noteq> dquote"
  by (simp_all add: dquote_def squote_def)

lemma forms_bracketed:
  assumes "CHR ''('' \<notin> set x" "CHR '')'' \<notin> set x"
  shows "bracketed (url_plain x)" "bracketed (url_dquoted x)" "bracketed (url_squoted x)"
proof -
  show "bracketed (url_plain x)" using assms by (auto simp: bracketed_def url_plain_def)
  have "url_dquoted x = ''url('' @ (dquote # x @ [dquote]) @ '')''"
    by (simp add: url_dquoted_def)
  moreover have "CHR ''('' \<notin> set (dquote # x @ [dquote])" "CHR '')'' \<notin> set (dquote # x @ [dquote])"
    using assms by auto
  ultimately show "bracketed (url_dquoted x)" unfolding bracketed_def by blast
  have "url_squoted x = ''url('' @ (squote # x @ [squote]) @ '')''"
    by (simp add: url_squoted_def)
  moreover have "CHR ''('' \<notin> set (squote # x @ [squote])" "CHR '')'' \<notin> set (squote # x @ [squote])"
    using assms by auto
  ultimately show "bracketed (url_squoted x)" unfolding bracketed_def by blast
qed

lemma forms_inject [simp]:
  "url_plain x = url_plain y \<longleftrightarrow> x = y"
  "url_dquoted x = url_dquoted y \<longleftrightarrow> x = y"
  "url_squoted x = url_squoted y \<longleftrightarrow> x = y"
  "url_dquoted x \<noteq> url_squoted y" "url_squoted x \<noteq> url_dquoted y"
  by (simp_all add: url_plain_def url_dquoted_def url_squoted_def)

lemma forms_distinct:
  assumes "dquote \<notin> set x" "squote \<notin> set x"
  shows "url_plain x \<noteq> url_dquoted y" "url_plain x \<noteq> url_squoted y"
    "url_dquoted y \<noteq> url_plain x" "url_squoted y \<noteq> url_plain x"
  using assms by (auto simp: url_plain_def url_dquoted_def url_squoted_def)

lemma replace_token_cases:
  assumes "plain_text p" "plain_text u"
  shows "replace_token X (p, u)
         = (if X = url_plain p then url_plain u
            else if X = url_dquoted p then url_dquoted u
            else if X = url_squoted p then url_squoted u else X)"
  using assms forms_distinct [of u] forms_distinct [of p]
  by (auto simp: replace_token_def plain_text_def Let_def)

lemma replace_token_bracketed:
  assumes "plain_text p" "plain_text u" "bracketed X"
  shows "bracketed (replace_token X (p, u))"
  using assms forms_bracketed [of u]
  by (auto simp: replace_token_cases) (auto simp: plain_text_def)

lemma replace_font_barrier:
  assumes p: "plain_text p" and u: "plain_text u" and X: "bracketed X"
  shows "replace_font (a @ X @ r) (p, u)
         = replace_font a (p, u) @ replace_token X (p, u) @ replace_font r (p, u)"
proof -
  note bp = forms_bracketed [of p] and bu = forms_bracketed [of u]
  have P: "bracketed (url_plain p)" "bracketed (url_dquoted p)" "bracketed (url_squoted p)"
    and U: "bracketed (url_plain u)" "bracketed (url_dquoted u)" "bracketed (url_squoted u)"
    using p u bp bu by (simp_all add: plain_text_def)
  define X1 where "X1 = (if X = url_plain p then url_plain u else X)"
  define X2 where "X2 = (if X1 = url_dquoted p then url_dquoted u else X1)"
  have X1: "bracketed X1" using X U by (simp add: X1_def)
  have X2: "bracketed X2" using X1 U by (simp add: X2_def)
  show ?thesis
    unfolding replace_font_def replace_token_def Let_def prod.case
    by (simp only: replace_barrier [OF P(1) X] replace_barrier [OF P(2) X1] 
        replace_barrier [OF P(3) X2] X1_def [symmetric] X2_def [symmetric])
qed

lemma replace_font_token_free:
  assumes "plain_text p" "\<not> has_token s"
  shows "replace_font s (p, u) = s"
  using assms forms_bracketed [of p]
  by (simp add: replace_font_def plain_text_def replace_token_free)

lemma apply_replacements_token_free:
  assumes "\<forall>(p, u) \<in> set m. plain_text p" "\<not> has_token s"
  shows "apply_replacements s m = s"
  using assms unfolding apply_replacements_def
  by (induction m) (auto simp: replace_font_token_free)

lemma foldl_replace_token_bracketed:
  assumes "\<forall>(p, u) \<in> set m. plain_text p \<and> plain_text u" "bracketed X"
  shows "bracketed (foldl replace_token X m)"
  using assms by (induction m arbitrary: X) (auto simp: replace_token_bracketed)

lemma apply_replacements_barrier:
  assumes "\<forall>(p, u) \<in> set m. plain_text p \<and> plain_text u" "bracketed X"
  shows "apply_replacements (a @ X @ r) m
         = apply_replacements a m @ foldl replace_token X m @ apply_replacements r m"
  using assms unfolding apply_replacements_def
proof (induction m arbitrary: a X r)
  case Nil
  show ?case by simp
next
  case (Cons e m)
  obtain p u where e: "e = (p, u)" by (cases e)
  have pu: "plain_text p" "plain_text u" using Cons.prems e by auto
  have "bracketed (replace_token X (p, u))"
    using pu Cons.prems(2) by (rule replace_token_bracketed)
  then show ?case
    using Cons.IH [of "replace_token X (p, u)"] Cons.prems(1) e
      replace_font_barrier [OF pu Cons.prems(2)]
    by simp
qed

subsection \<open>What the passes make of a token\<close>

lemma foldl_replace_token_fixed:
  assumes "\<forall>(p, u) \<in> set m. Y \<noteq> url_plain p \<and> Y \<noteq> url_dquoted p \<and> Y \<noteq> url_squoted p"
  shows "foldl replace_token Y m = Y"
  using assms by (induction m) (auto simp: replace_token_def)

lemma token_image_Cons:
  "token_image (forms ((p, u) # m)) X
   = (if X = url_plain p then url_plain u
      else if X = url_dquoted p then url_dquoted u
      else if X = url_squoted p then url_squoted u else token_image (forms m) X)"
  by (simp add: token_image_def forms_def entry_forms_def)

lemma clean_mapping_Cons: "clean_mapping (e # m) \<Longrightarrow> clean_mapping m"
  by (auto simp: clean_mapping_def)

lemma clean_mapping_plain:
  "clean_mapping m \<Longrightarrow> \<forall>(p, u) \<in> set m. plain_text p \<and> plain_text u"
  by (auto simp: clean_mapping_def)

lemma form_of_value_fixed:
  assumes clean: "clean_mapping ((p, u) # m)"
    and Y: "Y = url_plain u \<or> Y = url_dquoted u \<or> Y = url_squoted u"
  shows "foldl replace_token Y m = Y"
proof (rule foldl_replace_token_fixed, clarify)
  fix k v assume kv: "(k, v) \<in> set m"
  have u: "plain_text u" "u \<noteq> k" and k: "plain_text k"
    using clean kv by (force simp: clean_mapping_def)+
  show "Y \<noteq> url_plain k \<and> Y \<noteq> url_dquoted k \<and> Y \<noteq> url_squoted k"
    using Y u k forms_distinct [of u] forms_distinct [of k]
    by (auto simp: plain_text_def)
qed

lemma foldl_replace_token_image:
  assumes "clean_mapping m"
  shows "foldl replace_token X m = token_image (forms m) X"
  using assms
proof (induction m arbitrary: X)
  case Nil
  show ?case by (simp add: token_image_def forms_def)
next
  case (Cons e m)
  obtain p u where e: "e = (p, u)" by (cases e)
  have pu: "plain_text p" "plain_text u" using Cons.prems e by (auto simp: clean_mapping_def)
  note fixed = form_of_value_fixed [OF Cons.prems [unfolded e]]
  note IH = Cons.IH [OF clean_mapping_Cons [OF Cons.prems]]
  show ?case
    unfolding e token_image_Cons foldl_Cons replace_token_cases [OF pu]
    using fixed IH by auto
qed

lemma apply_replacements_one_pass:
  assumes "clean_mapping m"
  shows "apply_replacements s m = spec_substitute (forms m) s"
proof (rule token_induction [where F = "\<lambda>s. apply_replacements s m"
      and G = "spec_substitute (forms m)" and t = "token_image (forms m)"])
  note plain = clean_mapping_plain [OF assms]
  have pats: "\<forall>(old, new) \<in> set (forms m). bracketed old"
    using plain forms_bracketed by (fastforce simp: forms_def entry_forms_def plain_text_def)
  show "apply_replacements s m = spec_substitute (forms m) s" if "\<not> has_token s" for s
    using that plain pats
    by (simp add: spec_substitute_token_free apply_replacements_token_free case_prod_unfold)
  show "apply_replacements (a @ X @ r) m
        = apply_replacements a m @ token_image (forms m) X @ apply_replacements r m"
    if "bracketed X" for a X r
    using apply_replacements_barrier [OF plain that] foldl_replace_token_image [OF assms]
    by simp
  show "spec_substitute (forms m) (a @ X @ r)
        = spec_substitute (forms m) a @ token_image (forms m) X @ spec_substitute (forms m) r"
    if "bracketed X" for a X r
    using pats that by (rule spec_substitute_barrier)
qed

subsection \<open>The mapping of a run\<close>

lemma plain_text_append [simp]: "plain_text (a @ b) \<longleftrightarrow> plain_text a \<and> plain_text b"
  by (auto simp: plain_text_def)

lemma plain_text_mime: "plain_text (get_mime_type p)"
  using get_mime_type_cases [of p] by (auto simp: plain_text_def dquote_def squote_def)

lemma plain_text_b64encode: "plain_text (b64encode d)"
proof -
  have "CHR ''='' \<notin> {CHR ''('', CHR '')'', dquote, squote}"
    by (simp add: dquote_def squote_def)
  then have "list_all (\<lambda>c. c \<notin> {CHR ''('', CHR '')'', dquote, squote}) (b64encode d)"
    using b64_char_plain by (intro b64encode_all) blast+
  then show ?thesis by (auto simp: plain_text_def list_all_iff)
qed

lemma plain_text_encode_font: "plain_text (encode_font p d)"
proof -
  have "plain_text ''data:''" "plain_text '';base64,''"
    by (simp_all add: plain_text_def dquote_def squote_def)
  then show ?thesis
    by (simp add: encode_font_def plain_text_mime plain_text_b64encode del: append.simps)
qed

lemma encode_font_not_reference: "font_reference k \<Longrightarrow> encode_font p d \<noteq> k"
  by (auto simp: font_reference_def encode_font_def prefix_def)

lemma font_reference_plain: "font_reference p \<Longrightarrow> CHR ''('' \<notin> set p \<Longrightarrow> plain_text p"
  by (simp add: font_reference_def plain_text_def)

lemma encoded_keys [simp]: "map fst (encoded fonts) = map fst fonts"
  by (induction fonts) (auto simp: encoded_def)

lemma encoded_member: "(p, u) \<in> set (encoded fonts) \<longleftrightarrow> (\<exists>d. (p, d) \<in> set fonts \<and> u = encode_font p d)"
  by (auto simp: encoded_def)

lemma clean_encoded:
  assumes "well_formed_fonts fonts"
  shows "clean_mapping (encoded fonts)"
  unfolding clean_mapping_def
proof clarify
  fix p u assume "(p, u) \<in> set (encoded fonts)"
  then obtain d where pd: "(p, d) \<in> set fonts" and u: "u = encode_font p d"
    by (auto simp: encoded_member)
  have keys: "font_reference k \<and> CHR ''('' \<notin> set k" if "k \<in> fst ` set fonts" for k
    using assms that by (auto simp: well_formed_fonts_def)
  have "fst ` set (encoded fonts) = fst ` set fonts"
    using encoded_keys [of fonts] by (metis list.set_map)
  then have "u \<notin> fst ` set (encoded fonts)"
    using keys encode_font_not_reference [of u p d] u by auto 
  moreover have "plain_text p" using keys [of p] pd font_reference_plain by force
  ultimately show "plain_text p \<and> plain_text u \<and> u \<notin> fst ` set (encoded fonts)"
    using u plain_text_encode_font by simp
qed

subsection \<open>The image of the forms of a path\<close>

lemma token_image_mapped:
  assumes "clean_mapping m" "distinct (map fst m)" "(p, u) \<in> set m"
  shows "token_image (forms m) (url_plain p) = url_plain u
    \<and> token_image (forms m) (url_dquoted p) = url_dquoted u
    \<and> token_image (forms m) (url_squoted p) = url_squoted u"
  using assms
proof (induction m)
  case Nil
  then show ?case by simp
next
  case (Cons e m)
  obtain k v where e: "e = (k, v)" by (cases e)
  have k: "plain_text k" and p: "plain_text p"
    using Cons.prems(1,3) e by (auto simp: clean_mapping_def)
  have same: "v = u" if "k = p"
    using that Cons.prems(2,3) e by (auto simp: image_iff)
  have later: "(p, u) \<in> set m" if "k \<noteq> p"
    using that Cons.prems(3) e by auto
  note cm = clean_mapping_Cons [OF Cons.prems(1)]
  have dm: "distinct (map fst m)" using Cons.prems(2) by simp
  note fd = forms_distinct [of p] forms_distinct [of k]
  show ?case
  proof (cases "k = p")
    case True
    then show ?thesis
      unfolding e token_image_Cons using same p fd by (auto simp: plain_text_def)
  next
    case False
    then show ?thesis
      unfolding e token_image_Cons
      using Cons.IH [OF cm dm later [OF False]] k p fd by (auto simp: plain_text_def)
  qed
qed

lemma token_image_unmapped:
  assumes "clean_mapping m" "p \<notin> fst ` set m" "plain_text p"
  shows "token_image (forms m) (url_plain p) = url_plain p
    \<and> token_image (forms m) (url_dquoted p) = url_dquoted p
    \<and> token_image (forms m) (url_squoted p) = url_squoted p"
  using assms
proof (induction m)
  case Nil
  show ?case by (simp add: token_image_def forms_def)
next
  case (Cons e m)
  obtain k v where e: "e = (k, v)" by (cases e)
  have k: "plain_text k" using Cons.prems(1) e by (auto simp: clean_mapping_def)
  have ne: "k \<noteq> p" and rest: "p \<notin> fst ` set m" using Cons.prems(2) e by auto
  note cm = clean_mapping_Cons [OF Cons.prems(1)]
  note fd = forms_distinct [of p] forms_distinct [of k]
  show ?case
    unfolding e token_image_Cons
    using ne Cons.IH [OF cm rest Cons.prems(3)] k Cons.prems(3) fd
    by (auto simp: plain_text_def)
qed

lemma apply_replacements_around:
  assumes "clean_mapping m" "bracketed X"
  shows "apply_replacements (a @ X @ r) m
         = apply_replacements a m @ token_image (forms m) X @ apply_replacements r m"
  using apply_replacements_barrier [OF clean_mapping_plain [OF assms(1)] assms(2)]
    foldl_replace_token_image [OF assms(1)]
  by simp


subsection \<open>The order of the entries\<close>

lemma well_formed_fonts_perm:
  assumes "well_formed_fonts fonts" "mset fonts' = mset fonts"
  shows "well_formed_fonts fonts'" "set fonts' = set fonts"
proof -
  show s: "set fonts' = set fonts" using assms(2) by (rule mset_eq_setD)
  have "mset (map fst fonts') = mset (map fst fonts)" using assms(2) by simp
  then have "distinct (map fst fonts') \<longleftrightarrow> distinct (map fst fonts)"
    by (rule mset_eq_imp_distinct_iff)
  with assms(1) s show "well_formed_fonts fonts'" by (simp add: well_formed_fonts_def)
qed

lemma token_image_none:
  assumes "\<forall>(p, u) \<in> set m. X \<noteq> url_plain p \<and> X \<noteq> url_dquoted p \<and> X \<noteq> url_squoted p"
  shows "token_image (forms m) X = X"
  using assms
proof (induction m)
  case Nil
  show ?case by (simp add: token_image_def forms_def)
next
  case (Cons e m)
  obtain p u where e: "e = (p, u)" by (cases e)
  with Cons show ?case unfolding e token_image_Cons by auto
qed

lemma token_image_set:
  assumes m: "clean_mapping m" "distinct (map fst m)"
    and m': "clean_mapping m'" "distinct (map fst m')" and same: "set m' = set m"
  shows "token_image (forms m') X = token_image (forms m) X"
proof (cases "\<forall>(p, u) \<in> set m. X \<noteq> url_plain p \<and> X \<noteq> url_dquoted p \<and> X \<noteq> url_squoted p")
  case True
  then show ?thesis using token_image_none [of m X] token_image_none [of m' X] same by simp
next
  case False
  then obtain p u where pu: "(p, u) \<in> set m"
    and X: "X = url_plain p \<or> X = url_dquoted p \<or> X = url_squoted p" by auto
  from pu same have pu': "(p, u) \<in> set m'" by simp
  show ?thesis
    using X token_image_mapped [OF m pu] token_image_mapped [OF m' pu'] by auto
qed

lemma forms_bracketed_all:
  assumes "clean_mapping m"
  shows "\<forall>(old, new) \<in> set (forms m). bracketed old"
  using clean_mapping_plain [OF assms] forms_bracketed
  by (fastforce simp: forms_def entry_forms_def plain_text_def)

lemma spec_substitute_set:
  assumes m: "clean_mapping m" "distinct (map fst m)"
    and m': "clean_mapping m'" "distinct (map fst m')" and same: "set m' = set m"
  shows "spec_substitute (forms m') s = spec_substitute (forms m) s"
proof (rule token_induction [where F = "spec_substitute (forms m')"
      and G = "spec_substitute (forms m)" and t = "token_image (forms m)"])
  show "spec_substitute (forms m') s = spec_substitute (forms m) s" if "\<not> has_token s" for s
    using that forms_bracketed_all [OF m(1)] forms_bracketed_all [OF m'(1)]
    by (simp add: spec_substitute_token_free)
  show "spec_substitute (forms m') (a @ X @ r)
        = spec_substitute (forms m') a @ token_image (forms m) X @ spec_substitute (forms m') r"
    if "bracketed X" for a X r
    using spec_substitute_barrier [OF forms_bracketed_all [OF m'(1)] that, of a r]
      token_image_set [OF m m' same, of X] by simp
  show "spec_substitute (forms m) (a @ X @ r)
        = spec_substitute (forms m) a @ token_image (forms m) X @ spec_substitute (forms m) r"
    if "bracketed X" for a X r
    using forms_bracketed_all [OF m(1)] that by (rule spec_substitute_barrier)
qed

lemma encoded_distinct: "well_formed_fonts fonts \<Longrightarrow> distinct (map fst (encoded fonts))"
  by (simp add: well_formed_fonts_def)

lemma encoded_set: "set fonts' = set fonts \<Longrightarrow> set (encoded fonts') = set (encoded fonts)"
  by (simp add: encoded_def)

lemma well_formed_plain:
  "well_formed_fonts fonts \<Longrightarrow> (p, d) \<in> set fonts \<Longrightarrow> plain_text p"
  by (auto simp: well_formed_fonts_def intro: font_reference_plain)

lemma apply_replacements_mapped:
  assumes wf: "well_formed_fonts fonts" and pd: "(p, d) \<in> set fonts"
  shows "apply_replacements (a @ url_plain p @ r) (encoded fonts)
           = apply_replacements a (encoded fonts) @ url_plain (encode_font p d)
             @ apply_replacements r (encoded fonts)"
    and "apply_replacements (a @ url_dquoted p @ r) (encoded fonts)
           = apply_replacements a (encoded fonts) @ url_dquoted (encode_font p d)
             @ apply_replacements r (encoded fonts)"
    and "apply_replacements (a @ url_squoted p @ r) (encoded fonts)
           = apply_replacements a (encoded fonts) @ url_squoted (encode_font p d)
             @ apply_replacements r (encoded fonts)"
proof -
  note clean = clean_encoded [OF wf]
  have p: "plain_text p" using wf pd by (rule well_formed_plain)
  then have b: "bracketed (url_plain p)" "bracketed (url_dquoted p)" "bracketed (url_squoted p)"
    using forms_bracketed [of p] by (simp_all add: plain_text_def)
  have "(p, encode_font p d) \<in> set (encoded fonts)" using pd by (auto simp: encoded_member)
  note img = token_image_mapped [OF clean encoded_distinct [OF wf] this]
  show "apply_replacements (a @ url_plain p @ r) (encoded fonts)
           = apply_replacements a (encoded fonts) @ url_plain (encode_font p d)
             @ apply_replacements r (encoded fonts)"
    using apply_replacements_around [OF clean b(1)] img by simp
  show "apply_replacements (a @ url_dquoted p @ r) (encoded fonts)
           = apply_replacements a (encoded fonts) @ url_dquoted (encode_font p d)
             @ apply_replacements r (encoded fonts)"
    using apply_replacements_around [OF clean b(2)] img by simp
  show "apply_replacements (a @ url_squoted p @ r) (encoded fonts)
           = apply_replacements a (encoded fonts) @ url_squoted (encode_font p d)
             @ apply_replacements r (encoded fonts)"
    using apply_replacements_around [OF clean b(3)] img by simp
qed

lemma apply_replacements_unmapped:
  assumes wf: "well_formed_fonts fonts" and q: "q \<notin> fst ` set fonts" "plain_text q"
  shows "apply_replacements (a @ url_plain q @ r) (encoded fonts)
           = apply_replacements a (encoded fonts) @ url_plain q
             @ apply_replacements r (encoded fonts)"
    and "apply_replacements (a @ url_dquoted q @ r) (encoded fonts)
           = apply_replacements a (encoded fonts) @ url_dquoted q
             @ apply_replacements r (encoded fonts)"
    and "apply_replacements (a @ url_squoted q @ r) (encoded fonts)
           = apply_replacements a (encoded fonts) @ url_squoted q
             @ apply_replacements r (encoded fonts)"
proof -
  note clean = clean_encoded [OF wf]
  have b: "bracketed (url_plain q)" "bracketed (url_dquoted q)" "bracketed (url_squoted q)"
    using forms_bracketed [of q] q(2) by (simp_all add: plain_text_def)
  have "q \<notin> fst ` set (encoded fonts)"
    using q(1) encoded_keys [of fonts] by (metis list.set_map)
  note img = token_image_unmapped [OF clean this q(2)]
  show "apply_replacements (a @ url_plain q @ r) (encoded fonts)
           = apply_replacements a (encoded fonts) @ url_plain q
             @ apply_replacements r (encoded fonts)"
    using apply_replacements_around [OF clean b(1)] img by simp
  show "apply_replacements (a @ url_dquoted q @ r) (encoded fonts)
           = apply_replacements a (encoded fonts) @ url_dquoted q
             @ apply_replacements r (encoded fonts)"
    using apply_replacements_around [OF clean b(2)] img by simp
  show "apply_replacements (a @ url_squoted q @ r) (encoded fonts)
           = apply_replacements a (encoded fonts) @ url_squoted q
             @ apply_replacements r (encoded fonts)"
    using apply_replacements_around [OF clean b(3)] img by simp
qed

lemma apply_replacements_perm:
  assumes wf: "well_formed_fonts fonts" and perm: "mset fonts' = mset fonts"
  shows "apply_replacements css (encoded fonts') = apply_replacements css (encoded fonts)"
proof -
  note p = well_formed_fonts_perm [OF wf perm]
  have "apply_replacements css (encoded fonts') = spec_substitute (forms (encoded fonts')) css"
    using clean_encoded [OF p(1)] by (rule apply_replacements_one_pass)
  also have "\<dots> = spec_substitute (forms (encoded fonts)) css"
    using clean_encoded [OF wf] encoded_distinct [OF wf]
      clean_encoded [OF p(1)] encoded_distinct [OF p(1)] encoded_set [OF p(2)]
    by (rule spec_substitute_set)
  also have "\<dots> = apply_replacements css (encoded fonts)"
    using clean_encoded [OF wf] by (rule apply_replacements_one_pass [symmetric])
  finally show ?thesis .
qed


subsection \<open>A pattern that does not occur\<close>


subsection \<open>Substitution completeness\<close>

text \<open>
  Claim C1, as the specification states it, fails: the passes of one entry can destroy
  the occurrences of another. In \<open>shadowed_css\<close> the discovery finds the two references
  \<^verbatim>\<open>fonts/a\<close> and \<^verbatim>\<open>fonts/xurl(fonts/a\<close>, in this order; both are obtained. The text has
  one occurrence of \<^verbatim>\<open>url(fonts/xurl(fonts/a)\<close>, at position 0. The passes of
  \<^verbatim>\<open>fonts/a\<close> rewrite its tail, so the passes of \<^verbatim>\<open>fonts/xurl(fonts/a\<close> find nothing:
  the output has no occurrence of the form that wraps the data URI of that reference.
\<close>

theorem substitution_complete_counterexample:
  "unique_fonts shadowed_css = [''fonts/a'', ''fonts/xurl(fonts/a'']
   \<and> map fst (encoded [(''fonts/a'', [2]), (''fonts/xurl(fonts/a'', [1])])
       = unique_fonts shadowed_css
   \<and> occurrences (url_plain ''fonts/xurl(fonts/a'') shadowed_css = [0]
   \<and> apply_replacements shadowed_css
         (encoded [(''fonts/a'', [2]), (''fonts/xurl(fonts/a'', [1])])
       = ''url(fonts/xurl(data:application/octet-stream;base64,Ag==) url(data:application/octet-stream;base64,Ag==)''
   \<and> occurrences (url_plain (encode_font ''fonts/xurl(fonts/a'' [1]))
         (apply_replacements shadowed_css
            (encoded [(''fonts/a'', [2]), (''fonts/xurl(fonts/a'', [1])])) = []"
  by code_simp

text \<open>
  Claim C1, amended: when the paths of the fonts obtained are distinct references
  without an opening parenthesis (\<open>well_formed_fonts\<close>), then wherever a form
  \<^verbatim>\<open>url(p)\<close>, \<^verbatim>\<open>url("p")\<close> or \<^verbatim>\<open>url('p')\<close> of an obtained path \<open>p\<close> occurs in the
  text, between a text \<open>a\<close> in front and a text \<open>r\<close> behind, the output is the output
  for \<open>a\<close>, the same form around the data URI of \<open>p\<close>, and the output for \<open>r\<close>; and
  wherever such a form of a path \<open>q\<close> that is not in the mapping, and has neither
  parentheses nor quotes, occurs, the output is the output for \<open>a\<close>, the form as it
  was, and the output for \<open>r\<close>.
\<close>

theorem substitution_complete:
  assumes "well_formed_fonts fonts"
  shows "((p, d) \<in> set fonts \<longrightarrow>
            apply_replacements (a @ url_plain p @ r) (encoded fonts)
              = apply_replacements a (encoded fonts) @ url_plain (encode_font p d)
                @ apply_replacements r (encoded fonts)
            \<and> apply_replacements (a @ url_dquoted p @ r) (encoded fonts)
              = apply_replacements a (encoded fonts) @ url_dquoted (encode_font p d)
                @ apply_replacements r (encoded fonts)
            \<and> apply_replacements (a @ url_squoted p @ r) (encoded fonts)
              = apply_replacements a (encoded fonts) @ url_squoted (encode_font p d)
                @ apply_replacements r (encoded fonts))
         \<and> (q \<notin> fst ` set fonts \<and> plain_text q \<longrightarrow>
            apply_replacements (a @ url_plain q @ r) (encoded fonts)
              = apply_replacements a (encoded fonts) @ url_plain q
                @ apply_replacements r (encoded fonts)
            \<and> apply_replacements (a @ url_dquoted q @ r) (encoded fonts)
              = apply_replacements a (encoded fonts) @ url_dquoted q
                @ apply_replacements r (encoded fonts)
            \<and> apply_replacements (a @ url_squoted q @ r) (encoded fonts)
              = apply_replacements a (encoded fonts) @ url_squoted q
                @ apply_replacements r (encoded fonts))"
  using apply_replacements_mapped [OF assms, of p d a r]
    apply_replacements_unmapped [OF assms, of q a r]
  by blast

lemma well_formed_example:
  "well_formed_fonts [(''fonts/A.woff2'', [0x41, 0x42, 0x43])]
   \<and> well_formed_fonts [(''fonts/A.woff2'', [0x41, 0x42, 0x43]), (''fonts/B.woff'', [1])]
   \<and> plain_text ''fonts/B.woff''"
  by code_simp

lemma apply_replacements_example:
  "apply_replacements ''a{src:'' (encoded [(''fonts/A.woff2'', [0x41, 0x42, 0x43])]) = ''a{src:''
   \<and> apply_replacements ''}'' (encoded [(''fonts/A.woff2'', [0x41, 0x42, 0x43])]) = ''}''
   \<and> encode_font ''fonts/A.woff2'' [0x41, 0x42, 0x43] = ''data:font/woff2;base64,QUJD''"
  by code_simp

theorem substitution_complete_witness:
  "well_formed_fonts [(''fonts/A.woff2'', [0x41, 0x42, 0x43])]
   \<and> apply_replacements (''a{src:'' @ url_squoted ''fonts/A.woff2'' @ ''}'')
         (encoded [(''fonts/A.woff2'', [0x41, 0x42, 0x43])])
       = ''a{src:'' @ url_squoted ''data:font/woff2;base64,QUJD'' @ ''}''
   \<and> apply_replacements (''a{src:'' @ url_squoted ''fonts/B.woff'' @ ''}'')
         (encoded [(''fonts/A.woff2'', [0x41, 0x42, 0x43])])
       = ''a{src:'' @ url_squoted ''fonts/B.woff'' @ ''}''"
proof -
  have wf: "well_formed_fonts [(''fonts/A.woff2'', [0x41, 0x42, 0x43])]"
    using well_formed_example by simp
  note t = substitution_complete [OF wf, of "''fonts/A.woff2''" "[0x41, 0x42, 0x43]"
      "''a{src:''" "''}''" "''fonts/B.woff''"]
  have "apply_replacements (''a{src:'' @ url_squoted ''fonts/A.woff2'' @ ''}'')
         (encoded [(''fonts/A.woff2'', [0x41, 0x42, 0x43])])
       = ''a{src:'' @ url_squoted ''data:font/woff2;base64,QUJD'' @ ''}''"
    using t [THEN conjunct1] apply_replacements_example by simp
  moreover have "apply_replacements (''a{src:'' @ url_squoted ''fonts/B.woff'' @ ''}'')
         (encoded [(''fonts/A.woff2'', [0x41, 0x42, 0x43])])
       = ''a{src:'' @ url_squoted ''fonts/B.woff'' @ ''}''"
    using t [THEN conjunct2] well_formed_example apply_replacements_example by simp
  ultimately show ?thesis using wf by simp
qed

subsection \<open>The frame of the substitution\<close>





subsection \<open>The order of the passes\<close>

text \<open>
  Claim C9, as the specification states it, fails. The discovery finds two references
  in \<open>nested_css\<close>. With their entries in the sorted order, which is the order of the
  implementation, both tokens of the text are replaced; with the entries in the other
  order the first token keeps its head and gets the data URI of the other reference in
  its tail.
\<close>

theorem substitution_order_counterexample:
  "unique_fonts nested_css = [''fonts/xurl(fonts/y'', ''fonts/y'']
   \<and> apply_replacements nested_css
        (encoded [(''fonts/xurl(fonts/y'', [1]), (''fonts/y'', [2])])
       = ''url(data:application/octet-stream;base64,AQ==) url(data:application/octet-stream;base64,Ag==)''
   \<and> apply_replacements nested_css
        (encoded [(''fonts/y'', [2]), (''fonts/xurl(fonts/y'', [1])])
       = ''url(fonts/xurl(data:application/octet-stream;base64,Ag==) url(data:application/octet-stream;base64,Ag==)''
   \<and> apply_replacements nested_css
        (encoded [(''fonts/xurl(fonts/y'', [1]), (''fonts/y'', [2])])
       \<noteq> apply_replacements nested_css
        (encoded [(''fonts/y'', [2]), (''fonts/xurl(fonts/y'', [1])])"
  by code_simp

text \<open>
  Claim C9, amended: when the paths of the fonts obtained are distinct references
  without an opening parenthesis, the passes give the same output for every order
  of the entries (\<open>fonts'\<close> is any list with the entries of \<open>fonts\<close>), in particular for
  the entries sorted by path; and that output is the one-pass substitution of the
  forms of the mapping.
\<close>

theorem substitution_order_independent:
  assumes "well_formed_fonts fonts" and "mset fonts' = mset fonts"
  shows "apply_replacements css (encoded fonts') = apply_replacements css (encoded fonts)
     \<and> apply_replacements css (encoded (sort_key fst fonts))
         = apply_replacements css (encoded fonts)
     \<and> apply_replacements css (encoded fonts) = spec_substitute (forms (encoded fonts)) css"
proof -
  have "mset (sort_key fst fonts) = mset fonts" by simp
  then show ?thesis
    using apply_replacements_perm [OF assms] apply_replacements_perm [OF assms(1)]
      apply_replacements_one_pass [OF clean_encoded [OF assms(1)]]
    by simp
qed

lemma order_example:
  "spec_substitute (forms (encoded [(''fonts/A.woff2'', [0x41, 0x42, 0x43]), (''fonts/B.woff'', [1])]))
      ''url(fonts/B.woff) url(fonts/A.woff2)''
    = ''url(data:font/woff;base64,AQ==) url(data:font/woff2;base64,QUJD)''"
  by code_simp

theorem substitution_order_independent_witness:
  "well_formed_fonts [(''fonts/A.woff2'', [0x41, 0x42, 0x43]), (''fonts/B.woff'', [1])]
   \<and> mset [(''fonts/B.woff'', [1]), (''fonts/A.woff2'', [0x41, 0x42, 0x43 :: byte])]
       = mset [(''fonts/A.woff2'', [0x41, 0x42, 0x43]), (''fonts/B.woff'', [1])]
   \<and> apply_replacements ''url(fonts/B.woff) url(fonts/A.woff2)''
         (encoded [(''fonts/B.woff'', [1]), (''fonts/A.woff2'', [0x41, 0x42, 0x43])])
       = ''url(data:font/woff;base64,AQ==) url(data:font/woff2;base64,QUJD)''"
proof -
  have wf: "well_formed_fonts [(''fonts/A.woff2'', [0x41, 0x42, 0x43]), (''fonts/B.woff'', [1])]"
    using well_formed_example by simp
  have perm: "mset [(''fonts/B.woff'', [1]), (''fonts/A.woff2'', [0x41, 0x42, 0x43 :: byte])]
       = mset [(''fonts/A.woff2'', [0x41, 0x42, 0x43]), (''fonts/B.woff'', [1])]"
    by (simp add: add_mset_commute)
  show ?thesis
    using substitution_order_independent [OF wf perm, of "''url(fonts/B.woff) url(fonts/A.woff2)''"]
      order_example wf perm
    by simp
qed

subsection \<open>Mismatched quotes\<close>






end
